theory Spec2Isabelle
  imports Complex_Main "HOL-Library.Word"
begin

section \<open>Numbers\<close>

text \<open>
  The sources compute with C++ \<open>double\<close>. A finite double is modelled by the real number
  it stands for, next to the two infinities and NaN. The delay statistics of the example
  program are sums and quotients of sub-second times in seconds; there the embedding
  idealises the arithmetic (no rounding, no overflow) and keeps the three special results
  that IEEE division produces, because the code divides without looking at the divisor:
  \<open>x / 0\<close> is NaN for \<open>x = 0\<close> and an infinity of the sign of \<open>x\<close> otherwise (the divisors
  are counts converted to double, so a zero divisor is \<open>+0\<close>). The interval computation
  of the client is modelled with the rounding of binary64 arithmetic, in the section of
  the client.
\<close>

datatype double = Finite real | PosInf | NegInf | NaN

definition ddiv :: "real \<Rightarrow> real \<Rightarrow> double" where
  "ddiv a b =
     (if b \<noteq> 0 then Finite (a / b)
      else if a = 0 then NaN
      else if 0 < a then PosInf
      else NegInf)"

text \<open>Every way the modelled code can stop without a result.\<close>

datatype error =
    EraseOnEmptyVector
  | NullSocket
  | AssertPeerAddressSet
  | AssertSendEventExpired
  | AssertBernoulliPr
  | AssertNumInterval
  | IntervalNotFinite
  | TimeOverflow

section \<open>Delay decomposition (examples/single-bss-sld.cc, main)\<close>

text \<open>
  One record of \<open>successInfo\<close>; \<open>main\<close> reads the enqueue and dequeue times (in ms) and
  the number of failed attempts.
\<close>

record DelayRecord =
  m_enqueueMs :: real
  m_dequeueMs :: real
  m_failures :: nat

text \<open>
  \<open>std::map<uint32_t, std::map<uint8_t, V>>\<close>: association lists in key order, keys
  distinct. \<open>operator[]\<close> on a node that has no entry yields an empty inner map.
\<close>

type_synonym 'v LinkMap = "(nat \<times> 'v) list"
type_synonym 'v NodeLinkMap = "(nat \<times> 'v LinkMap) list"

definition at_node :: "'v NodeLinkMap \<Rightarrow> nat \<Rightarrow> 'v LinkMap" where
  "at_node m i = (case map_of m i of None \<Rightarrow> [] | Some l \<Rightarrow> l)"

text \<open>Lines 705-720: the head-of-line series of one (node, link) bucket.\<close>

definition holTimes :: "real list \<Rightarrow> real list \<Rightarrow> real list" where
  "holTimes enq deq =
     map (\<lambda>i. if i = 0 then enq ! i else max (enq ! i) (deq ! (i - 1))) [0..<length enq]"

text \<open>
  Lines 722-727: \<open>v.erase(v.begin())\<close>. On an empty vector \<open>begin()\<close> is the end
  iterator and erasing it is undefined behaviour.
\<close>

definition erase_begin :: "'a list \<Rightarrow> error + 'a list" where
  "erase_begin v = (case v of [] \<Rightarrow> Inl EraseOnEmptyVector | _ # rest \<Rightarrow> Inr rest)"

record Series =
  enqueueTime :: "real list"
  dequeueTime :: "real list"
  holTime :: "real list"

text \<open>Lines 700-727 for one bucket: the three series, each without its first element.\<close>

definition build_series :: "DelayRecord list \<Rightarrow> error + Series" where
  "build_series records =
     (let enq = map m_enqueueMs records;
          deq = map m_dequeueMs records;
          hol = holTimes enq deq
      in case erase_begin enq of Inl e \<Rightarrow> Inl e | Inr enq' \<Rightarrow>
         (case erase_begin deq of Inl e \<Rightarrow> Inl e | Inr deq' \<Rightarrow>
         (case erase_begin hol of Inl e \<Rightarrow> Inl e | Inr hol' \<Rightarrow>
            Inr \<lparr>enqueueTime = enq', dequeueTime = deq', holTime = hol'\<rparr>)))"

text \<open>Lines 746-760: the running totals, accumulated with \<open>+=\<close> from \<open>0.0\<close>.\<close>

definition totalQueuingDelay :: "Series \<Rightarrow> real" where
  "totalQueuingDelay s =
     fold (\<lambda>i acc. acc + (holTime s ! i - enqueueTime s ! i)) [0..<length (enqueueTime s)] 0"

definition totalAccessDelay :: "Series \<Rightarrow> real" where
  "totalAccessDelay s =
     fold (\<lambda>i acc. acc + (dequeueTime s ! i - holTime s ! i)) [0..<length (enqueueTime s)] 0"

definition accessDelays :: "Series \<Rightarrow> real list" where
  "accessDelays s = map (\<lambda>i. dequeueTime s ! i - holTime s ! i) [0..<length (enqueueTime s)]"

definition e2eDelays :: "Series \<Rightarrow> real list" where
  "e2eDelays s = map (\<lambda>i. dequeueTime s ! i - enqueueTime s ! i) [0..<length (enqueueTime s)]"

text \<open>
  Lines 761-766: the per-bucket means. \<open>numSuccess\<close> is
  \<open>finalResults.m_numSuccessPerNodeLink[node][link]\<close>, a counter of the statistics helper
  (declared outside this repository's sources; unsigned 64 bit like the counters \<open>main\<close>
  declares itself), so \<open>numSuccess - 1\<close> wraps at zero. The quotient is taken whatever the
  divisor is.
\<close>

definition meanQueuingDelay :: "Series \<Rightarrow> 64 word \<Rightarrow> double" where
  "meanQueuingDelay s numSuccess = ddiv (totalQueuingDelay s) (real (unat (numSuccess - 1)))"

definition meanAccessDelay :: "Series \<Rightarrow> 64 word \<Rightarrow> double" where
  "meanAccessDelay s numSuccess = ddiv (totalAccessDelay s) (real (unat (numSuccess - 1)))"

record BucketStats =
  totalQueuing :: real
  totalAccess :: real
  meanQueuing :: double
  meanAccess :: double

text \<open>Lines 696-768 for one bucket.\<close>

definition bucket_stats :: "DelayRecord list \<Rightarrow> 64 word \<Rightarrow> error + BucketStats" where
  "bucket_stats records numSuccess =
     (case build_series records of
        Inl e \<Rightarrow> Inl e
      | Inr s \<Rightarrow> Inr \<lparr>totalQueuing = totalQueuingDelay s,
                     totalAccess = totalAccessDelay s,
                     meanQueuing = meanQueuingDelay s numSuccess,
                     meanAccess = meanAccessDelay s numSuccess\<rparr>)"

text \<open>
  The loops over all nodes and links: the first bucket that fails stops the program.
\<close>

fun map_links :: "('a \<Rightarrow> error + 'b) \<Rightarrow> 'a LinkMap \<Rightarrow> error + 'b LinkMap" where
  "map_links f [] = Inr []"
| "map_links f ((link, x) # rest) =
     (case f x of
        Inl e \<Rightarrow> Inl e
      | Inr y \<Rightarrow> (case map_links f rest of Inl e \<Rightarrow> Inl e | Inr ys \<Rightarrow> Inr ((link, y) # ys)))"

fun map_nodes :: "('a \<Rightarrow> error + 'b) \<Rightarrow> 'a NodeLinkMap \<Rightarrow> error + 'b NodeLinkMap" where
  "map_nodes f [] = Inr []"
| "map_nodes f ((node, links) # rest) =
     (case map_links f links of
        Inl e \<Rightarrow> Inl e
      | Inr ls \<Rightarrow> (case map_nodes f rest of Inl e \<Rightarrow> Inl e | Inr ns \<Rightarrow> Inr ((node, ls) # ns)))"

text \<open>Lines 696-729: \<open>enqueueTimeMap\<close>, \<open>dequeueTimeMap\<close> and \<open>holTimeMap\<close>.\<close>

definition seriesPerNodeLink :: "DelayRecord list NodeLinkMap \<Rightarrow> error + Series NodeLinkMap" where
  "seriesPerNodeLink successInfo = map_nodes build_series successInfo"

text \<open>Lines 742-760: \<open>totalQueuingDelayPerNodeLink\<close> and \<open>totalAccessDelayPerNodeLink\<close>.\<close>

definition totalQueuingDelayPerNodeLink :: "Series NodeLinkMap \<Rightarrow> real NodeLinkMap" where
  "totalQueuingDelayPerNodeLink sm =
     map (\<lambda>(node, links). (node, map (\<lambda>(link, s). (link, totalQueuingDelay s)) links)) sm"

definition totalAccessDelayPerNodeLink :: "Series NodeLinkMap \<Rightarrow> real NodeLinkMap" where
  "totalAccessDelayPerNodeLink sm =
     map (\<lambda>(node, links). (node, map (\<lambda>(link, s). (link, totalAccessDelay s)) links)) sm"

text \<open>
  Lines 812-825: \<open>numSldSuccessPerLink[0]\<close>, one more for every record of every link of
  the nodes \<open>1 .. nSldLink1Sta\<close>.
\<close>

definition numSldSuccessLink1 :: "DelayRecord list NodeLinkMap \<Rightarrow> nat \<Rightarrow> nat" where
  "numSldSuccessLink1 successInfo nSldLink1Sta =
     fold (\<lambda>i n. fold (\<lambda>(link, records) n'. fold (\<lambda>pkt k. k + 1) records n')
                       (at_node successInfo i) n)
          [1..<1 + nSldLink1Sta] 0"

text \<open>Lines 850-864: \<open>sldQueDelayPerLinkTotal[0]\<close> and \<open>sldAccDelayPerLinkTotal[0]\<close>.\<close>

definition sldDelayLink1Total :: "real NodeLinkMap \<Rightarrow> nat \<Rightarrow> real" where
  "sldDelayLink1Total totals nSldLink1Sta =
     fold (\<lambda>i acc. fold (\<lambda>(link, item) acc'. acc' + item) (at_node totals i) acc)
          [1..<1 + nSldLink1Sta] 0"

text \<open>
  Lines 879-880, for either of the two delays: the group total over the group's number of
  records.
\<close>

definition sldMeanDelayLink1 ::
    "real NodeLinkMap \<Rightarrow> DelayRecord list NodeLinkMap \<Rightarrow> nat \<Rightarrow> double" where
  "sldMeanDelayLink1 totals successInfo nSldLink1Sta =
     ddiv (sldDelayLink1Total totals nSldLink1Sta)
          (real (numSldSuccessLink1 successInfo nSldLink1Sta))"

text \<open>Lines 696-880 together: the mean queuing delay of link 1 that \<open>main\<close> reports.\<close>

definition sldMeanQueDelayLink1 :: "DelayRecord list NodeLinkMap \<Rightarrow> nat \<Rightarrow> error + double" where
  "sldMeanQueDelayLink1 successInfo nSldLink1Sta =
     (case seriesPerNodeLink successInfo of
        Inl e \<Rightarrow> Inl e
      | Inr sm \<Rightarrow> Inr (sldMeanDelayLink1 (totalQueuingDelayPerNodeLink sm) successInfo
                         nSldLink1Sta))"

definition sldMeanAccDelayLink1 :: "DelayRecord list NodeLinkMap \<Rightarrow> nat \<Rightarrow> error + double" where
  "sldMeanAccDelayLink1 successInfo nSldLink1Sta =
     (case seriesPerNodeLink successInfo of
        Inl e \<Rightarrow> Inl e
      | Inr sm \<Rightarrow> Inr (sldMeanDelayLink1 (totalAccessDelayPerNodeLink sm) successInfo
                         nSldLink1Sta))"

section \<open>The Bernoulli client (model/bernoulli_packet_socket_client.cc)\<close>

text \<open>
  \<open>Time\<close> is a whole number of ticks of the simulator's resolution. The product of a
  double and a \<open>Time\<close> goes through the simulator's fixed-point type and is cut back to a
  whole number of ticks; on a whole number of slots every rounding mode gives the same
  tick count.
\<close>

type_synonym Time = int

text \<open>
  \<open>m_sendEvent\<close>: the client only asks whether the event is expired and cancels it.
  \<open>EventId()\<close> (never scheduled), an event that has run and a cancelled event are all
  expired; cancelling an expired event changes nothing.
\<close>

datatype EventId = NeverScheduled | Pending Time | HasRun | Cancelled

fun IsExpired :: "EventId \<Rightarrow> bool" where
  "IsExpired (Pending t) = False"
| "IsExpired e = True"

fun Cancel :: "EventId \<Rightarrow> EventId" where
  "Cancel (Pending t) = Cancelled"
| "Cancel e = e"

text \<open>
  A uniform random variable with \<open>Min = 0\<close> and \<open>Max = 1\<close>: the values of its stream
  and how many of them have been drawn.
\<close>

record Rng =
  samples :: "nat \<Rightarrow> real"
  drawn :: nat

definition GetValue :: "Rng \<Rightarrow> real \<times> Rng" where
  "GetValue r = (samples r (drawn r), r\<lparr>drawn := drawn r + 1\<rparr>)"

text \<open>
  The transport, as far as the client uses it: the priority field of the socket, whether
  it has been closed, every \<open>SetPriority\<close> call made on it and every packet handed to
  \<open>Send\<close> (size, the socket's priority at that moment, and whether the call returned a
  value \<open>\<ge> 0\<close>). A new socket has priority 0.
\<close>

record Socket =
  sk_priority :: "8 word"
  sk_closed :: bool
  sk_setPriorityCalls :: "8 word list"
  sk_packets :: "(32 word \<times> 8 word \<times> bool) list"

definition CreateSocket :: Socket where
  "CreateSocket = \<lparr>sk_priority = 0, sk_closed = False, sk_setPriorityCalls = [], sk_packets = []\<rparr>"

definition Socket_SetPriority :: "Socket \<Rightarrow> 8 word \<Rightarrow> Socket" where
  "Socket_SetPriority s p =
     s\<lparr>sk_priority := p, sk_setPriorityCalls := sk_setPriorityCalls s @ [p]\<rparr>"

definition Socket_Send :: "Socket \<Rightarrow> 32 word \<Rightarrow> bool \<Rightarrow> Socket" where
  "Socket_Send s bytes ok = s\<lparr>sk_packets := sk_packets s @ [(bytes, sk_priority s, ok)]\<rparr>"

definition Socket_Close :: "Socket \<Rightarrow> Socket" where
  "Socket_Close s = s\<lparr>sk_closed := True\<rparr>"

text \<open>
  The fields of the client. The header that declares them is not among the sources:
  \<open>m_maxPackets\<close>, \<open>m_size\<close> and \<open>m_optionalTid\<close> are \<open>uint32_t\<close> as their attribute
  checkers say, \<open>m_priority\<close> is \<open>uint8_t\<close> as \<open>SetPriority\<close> says, and the counter
  \<open>m_sent\<close> is taken to be \<open>uint32_t\<close> like the bound it is compared with.
  \<open>m_txTrace\<close> holds the sizes of the packets the trace source has reported.
\<close>

record Client =
  m_maxPackets :: "32 word"
  m_timeSlot :: Time
  m_bernoulliPr :: real
  m_size :: "32 word"
  m_priority :: "8 word"
  m_optionalTid :: "32 word"
  m_optionalTidPr :: real
  m_sent :: "32 word"
  m_socket :: "Socket option"
  m_sendEvent :: EventId
  m_peerAddressSet :: bool
  m_uniformRngForInterval :: Rng
  m_uniformRngForTid :: Rng
  m_txTrace :: "32 word list"

text \<open>
  The constructor, with the initial values of the attributes of \<open>GetTypeId\<close> (the time
  slot of 9 microseconds in nanosecond ticks). The two random streams are given.
\<close>

definition BernoulliPacketSocketClient :: "(nat \<Rightarrow> real) \<Rightarrow> (nat \<Rightarrow> real) \<Rightarrow> Client" where
  "BernoulliPacketSocketClient forInterval forTid =
     \<lparr>m_maxPackets = 100, m_timeSlot = 9000, m_bernoulliPr = 1 / 2, m_size = 1024,
      m_priority = 0, m_optionalTid = 0, m_optionalTidPr = 0,
      m_sent = 0, m_socket = None, m_sendEvent = NeverScheduled, m_peerAddressSet = False,
      m_uniformRngForInterval = \<lparr>samples = forInterval, drawn = 0\<rparr>,
      m_uniformRngForTid = \<lparr>samples = forTid, drawn = 0\<rparr>,
      m_txTrace = []\<rparr>"

definition SetRemote :: "Client \<Rightarrow> Client" where
  "SetRemote c = c\<lparr>m_peerAddressSet := True\<rparr>"

text \<open>\<open>SetPriority\<close> of the client (the setter of the attribute \<open>Priority\<close>).\<close>

definition SetPriority :: "8 word \<Rightarrow> Client \<Rightarrow> Client" where
  "SetPriority priority c =
     (let c1 = c\<lparr>m_priority := priority\<rparr>
      in case m_socket c1 of
           None \<Rightarrow> c1
         | Some s \<Rightarrow> c1\<lparr>m_socket := Some (Socket_SetPriority s priority)\<rparr>)"

text \<open>
  \<open>StartApplication\<close> at time \<open>now\<close>. The socket is created only when there is none;
  its priority is set only when \<open>m_priority\<close> is not zero. \<open>ScheduleNow\<close> arms \<open>Send\<close> at
  the current time.
\<close>

definition StartApplication :: "Time \<Rightarrow> Client \<Rightarrow> error + Client" where
  "StartApplication now c =
     (if \<not> m_peerAddressSet c then Inl AssertPeerAddressSet
      else
        let sock = (case m_socket c of
                      None \<Rightarrow> (if m_priority c \<noteq> 0
                               then Socket_SetPriority CreateSocket (m_priority c)
                               else CreateSocket)
                    | Some s \<Rightarrow> s)
        in Inr (c\<lparr>m_socket := Some sock, m_sendEvent := Pending now\<rparr>))"

text \<open>\<open>StopApplication\<close>: cancel the event, then close the socket (a null pointer if
  the application never started).\<close>

definition StopApplication :: "Client \<Rightarrow> error + Client" where
  "StopApplication c =
     (let c1 = c\<lparr>m_sendEvent := Cancel (m_sendEvent c)\<rparr>
      in case m_socket c1 of
           None \<Rightarrow> Inl NullSocket
         | Some s \<Rightarrow> Inr (c1\<lparr>m_socket := Some (Socket_Close s)\<rparr>))"

text \<open>Lines 196-209 of \<open>Send\<close>: the socket and the priority stream after the choice.\<close>

definition choose_tid :: "Client \<Rightarrow> Socket \<Rightarrow> Socket \<times> Rng" where
  "choose_tid c sock =
     (if m_optionalTid c \<noteq> ucast (m_priority c) then
        (let (v, rng) = GetValue (m_uniformRngForTid c)
         in if v < m_optionalTidPr c
            then (Socket_SetPriority sock (ucast (m_optionalTid c)), rng)
            else (Socket_SetPriority sock (m_priority c), rng))
      else (sock, m_uniformRngForTid c))"

text \<open>
  The double arithmetic of lines 227-230. A finite double is the real number it stands
  for (the sign of a zero is not kept). \<open>rnd\<close> is rounding to the nearest binary64 number,
  ties to the even significand: \<open>ulp_exp x\<close> is the exponent of the last place of the
  binade of \<open>x\<close> (never below the subnormal \<open>-1074\<close>), the significand is rounded to a whole
  number of such units, and a result of magnitude \<open>2^1024\<close> or more is an infinity.
\<close>

definition round_even :: "real \<Rightarrow> int" where
  "round_even y =
     (let f = \<lfloor>y\<rfloor>
      in if y - of_int f < 1 / 2 then f
         else if 1 / 2 < y - of_int f then f + 1
         else if even f then f else f + 1)"

definition ulp_exp :: "real \<Rightarrow> int" where
  "ulp_exp x = max (- 1074) (\<lfloor>log 2 \<bar>x\<bar>\<rfloor> - 52)"

definition inf_threshold :: real where
  "inf_threshold = 2 powi 1024"

definition rnd :: "real \<Rightarrow> double" where
  "rnd x =
     (if x = 0 then Finite 0
      else
        let e = ulp_exp x;
            r = of_int (round_even (x / 2 powi e)) * 2 powi e
        in if inf_threshold \<le> \<bar>r\<bar> then (if 0 < r then PosInf else NegInf) else Finite r)"

text \<open>
  \<open>std::log\<close>: minus infinity at zero, NaN below zero, and otherwise the logarithm rounded
  to the nearest double (the accuracy the C library aims at; in particular \<open>log 1\<close> is
  exactly zero and the logarithm of a double below 1 is negative).
\<close>

fun flog :: "double \<Rightarrow> double" where
  "flog (Finite x) = (if 0 < x then rnd (ln x) else if x = 0 then NegInf else NaN)"
| "flog PosInf = PosInf"
| "flog d = NaN"

text \<open>
  The quotient of two doubles. A zero divisor is the \<open>+0\<close> that \<open>log 1\<close> yields, so the
  quotient by zero has the sign of the dividend.
\<close>

fun fdiv :: "double \<Rightarrow> double \<Rightarrow> double" where
  "fdiv (Finite a) (Finite b) =
     (if b \<noteq> 0 then rnd (a / b)
      else if a = 0 then NaN
      else if 0 < a then PosInf
      else NegInf)"
| "fdiv (Finite a) PosInf = Finite 0"
| "fdiv (Finite a) NegInf = Finite 0"
| "fdiv PosInf (Finite b) = (if 0 \<le> b then PosInf else NegInf)"
| "fdiv NegInf (Finite b) = (if 0 \<le> b then NegInf else PosInf)"
| "fdiv a b = NaN"

text \<open>\<open>std::floor(x) + 1\<close>: the floor of a double is a double, the sum is rounded.\<close>

fun floor_plus_one :: "double \<Rightarrow> double" where
  "floor_plus_one (Finite x) = rnd (of_int \<lfloor>x\<rfloor> + 1)"
| "floor_plus_one d = d"

fun greater_zero :: "double \<Rightarrow> bool" where
  "greater_zero (Finite x) = (0 < x)"
| "greater_zero PosInf = True"
| "greater_zero d = False"

text \<open>Line 229: \<open>std::floor(std::log(uniform) / std::log(1 - m_bernoulliPr)) + 1\<close>.\<close>

definition numInterval :: "real \<Rightarrow> real \<Rightarrow> double" where
  "numInterval uniform p =
     floor_plus_one (fdiv (flog (Finite uniform)) (flog (rnd (1 - p))))"

text \<open>
  Line 231: the product of a double and a \<open>Time\<close>. The simulator converts the double to
  its 64.64 bit fixed-point type, multiplies and rounds to whole ticks; both the factor
  and the product have to fit the 64 bit of the integer part, and outside that range no
  result is specified.
\<close>

definition time_product :: "real \<Rightarrow> Time \<Rightarrow> error + Time" where
  "time_product k timeSlot =
     (if \<bar>k\<bar> < 2 ^ 63 \<and> \<bar>k * of_int timeSlot\<bar> < 2 ^ 63
      then Inr (round (k * of_int timeSlot))
      else Inl TimeOverflow)"

text \<open>
  Lines 227-231 of \<open>Send\<close>: the two assertions and the interval.
\<close>

definition next_interval :: "real \<Rightarrow> real \<Rightarrow> Time \<Rightarrow> error + Time" where
  "next_interval uniform p timeSlot =
     (if \<not> p < 1 then Inl AssertBernoulliPr
      else
        let n = numInterval uniform p
        in if \<not> greater_zero n then Inl AssertNumInterval
           else (case n of
                   Finite k \<Rightarrow> time_product k timeSlot
                 | _ \<Rightarrow> Inl IntervalNotFinite))"

text \<open>
  \<open>Send\<close>, run at time \<open>now\<close>; \<open>ok\<close> says whether the socket's \<open>Send\<close> returns a value
  \<open>\<ge> 0\<close>.
\<close>

definition Send :: "Time \<Rightarrow> bool \<Rightarrow> Client \<Rightarrow> error + Client" where
  "Send now ok c =
     (if \<not> IsExpired (m_sendEvent c) then Inl AssertSendEventExpired
      else case m_socket c of
        None \<Rightarrow> Inl NullSocket
      | Some sock \<Rightarrow>
          let (sock1, rngTid) = choose_tid c sock;
              sock2 = Socket_Send sock1 (m_size c) ok;
              trace = (if ok then m_txTrace c @ [m_size c] else m_txTrace c);
              sent = m_sent c + 1;
              (uniform, rngInterval) = GetValue (m_uniformRngForInterval c);
              c1 = c\<lparr>m_socket := Some sock2, m_uniformRngForTid := rngTid, m_txTrace := trace,
                     m_sent := sent, m_uniformRngForInterval := rngInterval\<rparr>
          in case next_interval uniform (m_bernoulliPr c) (m_timeSlot c) of
               Inl e \<Rightarrow> Inl e
             | Inr interval \<Rightarrow>
                 Inr (if sent < m_maxPackets c \<or> m_maxPackets c = 0
                      then c1\<lparr>m_sendEvent := Pending (now + interval)\<rparr>
                      else c1))"

text \<open>
  The scheduler, for this one application: when \<open>m_sendEvent\<close> is pending, the event runs
  at its time (and counts as expired while it runs); a cancelled or expired event never
  runs. \<open>run\<close> lets the scheduler take one step for every transport outcome of the list.
  Only the event that \<open>m_sendEvent\<close> refers to is kept, so the scheduler stands for runs
  in which \<open>StartApplication\<close> is not called again while an event is pending.
\<close>

definition fire :: "bool \<Rightarrow> Client \<Rightarrow> error + Client" where
  "fire ok c =
     (case m_sendEvent c of
        Pending t \<Rightarrow> Send t ok (c\<lparr>m_sendEvent := HasRun\<rparr>)
      | _ \<Rightarrow> Inr c)"

fun run :: "bool list \<Rightarrow> Client \<Rightarrow> error + Client" where
  "run [] c = Inr c"
| "run (ok # oks) c = (case fire ok c of Inl e \<Rightarrow> Inl e | Inr c' \<Rightarrow> run oks c')"

section \<open>Concrete inputs\<close>

definition delay_record :: "real \<Rightarrow> real \<Rightarrow> DelayRecord" where
  "delay_record e d = \<lparr>m_enqueueMs = e, m_dequeueMs = d, m_failures = 0\<rparr>"

text \<open>Enqueue times 0, 1, 5 and dequeue times 2, 6, 9 (ms).\<close>

definition spec_bucket :: "DelayRecord list" where
  "spec_bucket = [delay_record 0 2, delay_record 1 6, delay_record 5 9]"

text \<open>A bucket of 5 records with total queuing delay 10, one of 15 records with total 30.\<close>

definition five_bucket :: "DelayRecord list" where
  "five_bucket = [delay_record 0 1, delay_record 0 2, delay_record 0 3, delay_record 0 4,
                  delay_record 0 5]"

definition fifteen_bucket :: "DelayRecord list" where
  "fifteen_bucket =
     [delay_record 0 2, delay_record 0 2, delay_record 0 2, delay_record 0 2, delay_record 0 2,
      delay_record 0 2, delay_record 0 2, delay_record 0 2, delay_record 0 2, delay_record 0 2,
      delay_record 0 2, delay_record 0 2, delay_record 0 3, delay_record 0 3, delay_record 0 3]"

definition two_totals :: "real NodeLinkMap" where
  "two_totals = [(1, [(0, 10)]), (2, [(0, 30)])]"

definition two_flows :: "DelayRecord list NodeLinkMap" where
  "two_flows = [(1, [(0, five_bucket)]), (2, [(0, fifteen_bucket)])]"

text \<open>
  A client with the initial attribute values, both random streams constantly \<open>1/2\<close>, and
  the peer address set; the same client while it runs (socket created, no event pending)
  and right after \<open>StartApplication\<close> at time 0; and variants of it.
\<close>

definition half :: "nat \<Rightarrow> real" where "half i = 1 / 2"

definition client_a :: Client where
  "client_a = SetRemote (BernoulliPacketSocketClient half half)"

definition running_a :: Client where
  "running_a = client_a\<lparr>m_socket := Some CreateSocket, m_sendEvent := HasRun\<rparr>"

definition started_a :: Client where
  "started_a = client_a\<lparr>m_socket := Some CreateSocket, m_sendEvent := Pending 0\<rparr>"

definition client_three :: Client where
  "client_three = client_a\<lparr>m_maxPackets := 3\<rparr>"

definition client_same_tid :: Client where
  "client_same_tid = client_a\<lparr>m_optionalTidPr := 1\<rparr>"

definition running_two_tids :: Client where
  "running_two_tids =
     (SetPriority 3 client_a)\<lparr>m_optionalTid := 5, m_optionalTidPr := 1,
        m_socket := Some (Socket_SetPriority CreateSocket 3), m_sendEvent := HasRun\<rparr>"

section \<open>Helper lemmas\<close>

lemma fold_add_sum_list:
  fixes f :: "'a \<Rightarrow> real"
  shows "fold (\<lambda>x acc. acc + f x) xs a = a + sum_list (map f xs)"
  by (induction xs arbitrary: a) simp_all

lemmas stats_defs = bucket_stats_def build_series_def erase_begin_def holTimes_def
  totalQueuingDelay_def totalAccessDelay_def meanQueuingDelay_def meanAccessDelay_def ddiv_def
  delay_record_def

lemma length_holTimes: "length (holTimes enq deq) = length enq"
  by (simp add: holTimes_def)

lemma holTimes_nth:
  "i < length enq \<Longrightarrow>
   holTimes enq deq ! i = (if i = 0 then enq ! i else max (enq ! i) (deq ! (i - 1)))"
  by (auto simp add: holTimes_def nth_upt simp del: upt_Suc)

lemma build_series_nonempty:
  "records \<noteq> [] \<Longrightarrow>
   build_series records =
     Inr \<lparr>enqueueTime = tl (map m_enqueueMs records),
          dequeueTime = tl (map m_dequeueMs records),
          holTime = tl (holTimes (map m_enqueueMs records) (map m_dequeueMs records))\<rparr>"
  by (cases records)
    (simp_all add: build_series_def erase_begin_def Let_def holTimes_def upt_conv_Cons
      del: upt_Suc)

lemma sum_list_upt_sum: "sum_list (map f [0..<n]) = (\<Sum>i<n. (f i :: real))"
  by (simp add: sum_list_sum_nth atLeast0LessThan)

lemma totalQueuingDelay_sum:
  "totalQueuingDelay s = (\<Sum>i<length (enqueueTime s). holTime s ! i - enqueueTime s ! i)"
  by (simp add: totalQueuingDelay_def fold_add_sum_list sum_list_upt_sum)

lemma totalAccessDelay_sum:
  "totalAccessDelay s = (\<Sum>i<length (enqueueTime s). dequeueTime s ! i - holTime s ! i)"
  by (simp add: totalAccessDelay_def fold_add_sum_list sum_list_upt_sum)

lemma unat_minus_one_real:
  assumes "(c :: 64 word) \<noteq> 0"
  shows "real (unat (c - 1)) = real (unat c) - 1"
proof -
  have "unat (c - 1) = unat c - 1" using assms by (rule unat_minus_one)
  moreover have "1 \<le> unat c" using assms by (simp add: unat_gt_0 Suc_leI)
  ultimately show ?thesis by (simp only: of_nat_diff of_nat_1)
qed

lemma unsigned_max64: "(unsigned (- 1 :: 64 word) :: real) = 18446744073709551615"
proof -
  have "unat (- 1 :: 64 word) = 18446744073709551615"
    by (simp add: unsigned_minus_1_eq_mask mask_eq_exp_minus_1)
  then have "real (unat (- 1 :: 64 word)) = 18446744073709551615"
    by (simp only: of_nat_numeral)
  then show ?thesis by simp
qed

lemma bucket_stats_nonempty:
  "records \<noteq> [] \<Longrightarrow>
   \<exists>s. build_series records = Inr s \<and> length (enqueueTime s) = length records - 1 \<and>
     bucket_stats records numSuccess =
       Inr \<lparr>totalQueuing = totalQueuingDelay s, totalAccess = totalAccessDelay s,
            meanQueuing = ddiv (totalQueuingDelay s) (real (unat (numSuccess - 1))),
            meanAccess = ddiv (totalAccessDelay s) (real (unat (numSuccess - 1)))\<rparr>"
  by (simp add: bucket_stats_def build_series_nonempty meanQueuingDelay_def meanAccessDelay_def)

lemma fold_count_Suc: "fold (\<lambda>pkt. Suc) records n = n + length records"
  by (induction records arbitrary: n) simp_all

lemma fold_count_links_Suc:
  "fold (\<lambda>(link, y). fold (\<lambda>pkt. Suc) y) links n = n + (\<Sum>(link, y)\<leftarrow>links. length y)"
  by (induction links arbitrary: n) (auto simp add: fold_count_Suc)

lemma numSldSuccessLink1_sum:
  "numSldSuccessLink1 successInfo n
     = (\<Sum>i\<leftarrow>[1..<1 + n]. \<Sum>(link, records)\<leftarrow>at_node successInfo i. length records)"
proof -
  have "fold (\<lambda>i k. fold (\<lambda>(link, records) n'. fold (\<lambda>pkt k. k + 1) records n')
                       (at_node successInfo i) k) is (a :: nat)
        = a + (\<Sum>i\<leftarrow>is. \<Sum>(link, records)\<leftarrow>at_node successInfo i. length records)" for "is" a
    by (induction "is" arbitrary: a) (simp_all add: fold_count_links_Suc)
  then show ?thesis unfolding numSldSuccessLink1_def by simp
qed

lemma fold_items:
  "fold (\<lambda>(link, item) acc'. acc' + item) items (a :: real)
     = a + (\<Sum>(link, item)\<leftarrow>items. item)"
  by (induction items arbitrary: a) auto

lemma sldDelayLink1Total_sum:
  "sldDelayLink1Total totals n
     = (\<Sum>i\<leftarrow>[1..<1 + n]. \<Sum>(link, item)\<leftarrow>at_node totals i. item)"
proof -
  have "fold (\<lambda>i acc. fold (\<lambda>(link, item) acc'. acc' + item) (at_node totals i) acc) is
             (a :: real)
        = a + (\<Sum>i\<leftarrow>is. \<Sum>(link, item)\<leftarrow>at_node totals i. item)" for "is" a
    by (induction "is" arbitrary: a) (simp_all add: fold_items)
  then show ?thesis unfolding sldDelayLink1Total_def by simp
qed

lemma two_flows_series:
  "seriesPerNodeLink two_flows =
     Inr [(1, [(0, \<lparr>enqueueTime = [0, 0, 0, 0], dequeueTime = [2, 3, 4, 5],
                     holTime = [1, 2, 3, 4]\<rparr>)]),
          (2, [(0, \<lparr>enqueueTime = [0, 0, 0, 0, 0, 0, 0, 0, 0, 0, 0, 0, 0, 0],
                     dequeueTime = [2, 2, 2, 2, 2, 2, 2, 2, 2, 2, 2, 3, 3, 3],
                     holTime = [2, 2, 2, 2, 2, 2, 2, 2, 2, 2, 2, 2, 3, 3]\<rparr>)])]"
  by (simp add: seriesPerNodeLink_def two_flows_def five_bucket_def fifteen_bucket_def
      delay_record_def build_series_def erase_begin_def holTimes_def upt_conv_Cons
      del: upt_Suc)

lemma two_flows_totals:
  "map_sum id totalQueuingDelayPerNodeLink (seriesPerNodeLink two_flows) = Inr two_totals"
  by (simp add: two_totals_def two_flows_series totalQueuingDelayPerNodeLink_def
      totalQueuingDelay_def upt_conv_Cons del: upt_Suc)

lemma two_flows_count: "numSldSuccessLink1 two_flows 2 = 20"
  by (simp add: numSldSuccessLink1_sum upt_conv_Cons at_node_def two_flows_def five_bucket_def
      fifteen_bucket_def del: upt_Suc)

section \<open>Helper lemmas for the double arithmetic\<close>

subsection \<open>Rounding to a whole number\<close>

lemma round_even_char:
  assumes "\<bar>y - of_int m\<bar> < 1 / 2 \<or> (\<bar>y - of_int m\<bar> = 1 / 2 \<and> even m)"
  shows "round_even y = m"
proof -
  define f where "f = \<lfloor>y\<rfloor>"
  have f: "of_int f \<le> y" "y < of_int f + 1" unfolding f_def by linarith+
  have le: "\<bar>y - of_int m\<bar> \<le> 1 / 2" using assms by linarith
  have "m = f \<or> m = f + 1" using f le by linarith
  then show ?thesis
  proof
    assume m: "m = f"
    have d: "y - of_int f \<le> 1 / 2" using le f m by linarith
    show ?thesis
    proof (cases "y - of_int f < 1 / 2")
      case True
      then show ?thesis using m by (simp add: round_even_def f_def[symmetric])
    next
      case False
      then have eq: "y - of_int f = 1 / 2" using d by linarith
      then have "\<bar>y - of_int m\<bar> = 1 / 2" using m by simp
      then have "even f" using assms m by auto
      then show ?thesis using eq m by (simp add: round_even_def f_def[symmetric])
    qed
  next
    assume m: "m = f + 1"
    have d: "1 / 2 \<le> y - of_int f" using le f m by simp
    show ?thesis
    proof (cases "1 / 2 < y - of_int f")
      case True
      then show ?thesis using m by (simp add: round_even_def f_def[symmetric])
    next
      case False
      then have eq: "y - of_int f = 1 / 2" using d by linarith
      then have "\<bar>y - of_int m\<bar> = 1 / 2" using m by simp
      then have "even (f + 1)" using assms m by auto
      then have "odd f" by simp
      then show ?thesis using eq m by (simp add: round_even_def f_def[symmetric])
    qed
  qed
qed

lemma round_even_prop:
  "\<bar>y - of_int (round_even y)\<bar> < 1 / 2 \<or>
   (\<bar>y - of_int (round_even y)\<bar> = 1 / 2 \<and> even (round_even y))"
proof -
  define f where "f = \<lfloor>y\<rfloor>"
  have f: "of_int f \<le> y" "y < of_int f + 1" unfolding f_def by linarith+
  consider "y - of_int f < 1 / 2" | "1 / 2 < y - of_int f" | "y - of_int f = 1 / 2" "even f"
    | "y - of_int f = 1 / 2" "odd f"
    by linarith
  then show ?thesis
  proof cases
    case 1
    then have "round_even y = f" by (simp add: round_even_def f_def[symmetric])
    then show ?thesis using 1 f by simp
  next
    case 2
    then have "round_even y = f + 1" by (simp add: round_even_def f_def[symmetric])
    then show ?thesis using 2 f by simp
  next
    case 3
    then have "round_even y = f" by (simp add: round_even_def f_def[symmetric])
    then show ?thesis using 3 by simp
  next
    case 4
    then have "round_even y = f + 1" by (simp add: round_even_def f_def[symmetric])
    then show ?thesis using 4 by simp
  qed
qed

lemma round_even_of_int: "round_even (of_int n) = n"
  by (rule round_even_char) simp

lemma round_even_minus: "round_even (- y) = - round_even y"
proof (rule round_even_char)
  have "\<bar>- y - of_int (- round_even y)\<bar> = \<bar>y - of_int (round_even y)\<bar>" by simp
  then show "\<bar>- y - of_int (- round_even y)\<bar> < 1 / 2 \<or>
      (\<bar>- y - of_int (- round_even y)\<bar> = 1 / 2 \<and> even (- round_even y))"
    using round_even_prop[of y] by simp
qed

lemma round_even_ge: "of_int n \<le> y \<Longrightarrow> n \<le> round_even y"
  using round_even_prop[of y] by linarith

lemma round_even_le: "y \<le> of_int n \<Longrightarrow> round_even y \<le> n"
  using round_even_prop[of y] by linarith

lemma round_even_less: "y < of_int n - 1 / 2 \<Longrightarrow> round_even y < n"
  using round_even_prop[of y] by linarith

subsection \<open>Powers of two and the binade of a number\<close>

lemma p2_pos [simp]: "0 < (2 :: real) powi e"
  by simp

lemma p2_add: "(2 :: real) powi (a + b) = 2 powi a * 2 powi b"
  by (simp add: power_int_add)

lemma p2_diff: "(2 :: real) powi a / 2 powi b = 2 powi (a - b)"
  by (simp add: power_int_diff)

lemma p2_mono: "a \<le> b \<Longrightarrow> (2 :: real) powi a \<le> 2 powi b"
  by (rule power_int_increasing) simp_all

lemma p2_strict: "a < b \<Longrightarrow> (2 :: real) powi a < 2 powi b"
  by (rule power_int_strict_increasing) simp_all

lemma p2_le_D: "(2 :: real) powi a \<le> 2 powi b \<Longrightarrow> a \<le> b"
  using p2_strict[of b a] by (cases "a \<le> b") simp_all

lemma p2_less_D: "(2 :: real) powi a < 2 powi b \<Longrightarrow> a < b"
  using p2_mono[of b a] by (cases "a < b") simp_all

lemma p2_of_int: "0 \<le> e \<Longrightarrow> (2 :: real) powi e = of_int (2 ^ nat e)"
  by (simp add: power_int_nonneg_exp)

lemma p2_powr: "(2 :: real) powr of_int e = 2 powi e"
  by (rule powr_real_of_int') simp_all

lemma floor_log2_bounds:
  assumes "0 < x"
  shows "2 powi \<lfloor>log 2 x\<rfloor> \<le> x" and "x < 2 powi (\<lfloor>log 2 x\<rfloor> + 1)"
proof -
  have "2 powr of_int \<lfloor>log 2 x\<rfloor> \<le> 2 powr (log 2 x)" by simp
  then have "2 powr of_int \<lfloor>log 2 x\<rfloor> \<le> x"
    using assms by simp
  then show "2 powi \<lfloor>log 2 x\<rfloor> \<le> x" by (simp only: p2_powr)
  have "log 2 x < of_int (\<lfloor>log 2 x\<rfloor> + 1)" by linarith
  then have "2 powr (log 2 x) < 2 powr of_int (\<lfloor>log 2 x\<rfloor> + 1)"
    by (simp only: powr_less_cancel_iff[of 2] one_less_numeral_iff semiring_norm)
  then have "x < 2 powr of_int (\<lfloor>log 2 x\<rfloor> + 1)"
    using assms by simp
  then show "x < 2 powi (\<lfloor>log 2 x\<rfloor> + 1)" by (simp only: p2_powr)
qed

lemma floor_log2_eq:
  assumes "2 powi E \<le> x" "x < 2 powi (E + 1)"
  shows "\<lfloor>log 2 x\<rfloor> = E"
proof -
  have x: "0 < x" using assms(1) p2_pos[of E] by linarith
  have "2 powi \<lfloor>log 2 x\<rfloor> < (2 :: real) powi (E + 1)"
    using floor_log2_bounds(1)[OF x] assms(2) by linarith
  then have 1: "\<lfloor>log 2 x\<rfloor> < E + 1" by (rule p2_less_D)
  have "(2 :: real) powi E < 2 powi (\<lfloor>log 2 x\<rfloor> + 1)"
    using floor_log2_bounds(2)[OF x] assms(1) by linarith
  then have "E < \<lfloor>log 2 x\<rfloor> + 1" by (rule p2_less_D)
  then show ?thesis using 1 by linarith
qed

subsection \<open>Rounding to a double\<close>

lemma rnd_nonzero:
  "x \<noteq> 0 \<Longrightarrow>
   rnd x = (if inf_threshold \<le> \<bar>of_int (round_even (x / 2 powi ulp_exp x)) * (2 :: real) powi ulp_exp x\<bar>
            then (if 0 < of_int (round_even (x / 2 powi ulp_exp x)) * (2 :: real) powi ulp_exp x
                  then PosInf else NegInf)
            else Finite (of_int (round_even (x / 2 powi ulp_exp x)) * 2 powi ulp_exp x))"
  by (simp add: rnd_def Let_def)

lemma inf_threshold_pos: "0 < inf_threshold"
  unfolding inf_threshold_def by (rule p2_pos)

lemma p2_less_threshold: "b \<le> 1023 \<Longrightarrow> 2 powi b < inf_threshold"
  unfolding inf_threshold_def by (rule p2_strict) simp

lemma rnd_minus:
  "rnd (- x) = (case rnd x of Finite r \<Rightarrow> Finite (- r) | PosInf \<Rightarrow> NegInf
                | NegInf \<Rightarrow> PosInf | NaN \<Rightarrow> NaN)"
proof (cases "x = 0")
  case True
  then show ?thesis by (simp add: rnd_def)
next
  case False
  then have nx: "- x \<noteq> 0" by simp
  have e: "ulp_exp (- x) = ulp_exp x" by (simp add: ulp_exp_def)
  define r where "r = of_int (round_even (x / 2 powi ulp_exp x)) * (2 :: real) powi ulp_exp x"
  have m: "of_int (round_even (- x / 2 powi ulp_exp x)) * (2 :: real) powi ulp_exp x = - r"
    using round_even_minus[of "x / 2 powi ulp_exp x"] by (simp add: r_def)
  have a: "rnd x = (if inf_threshold \<le> \<bar>r\<bar> then (if 0 < r then PosInf else NegInf)
                    else Finite r)"
    unfolding rnd_nonzero[OF False] r_def ..
  have b: "rnd (- x) = (if inf_threshold \<le> \<bar>- r\<bar> then (if 0 < - r then PosInf else NegInf)
                    else Finite (- r))"
    unfolding rnd_nonzero[OF nx] e m ..
  show ?thesis
    unfolding a b using inf_threshold_pos by (auto simp add: abs_if split: if_splits)
qed

lemma rnd_upper:
  assumes x: "0 < x" "x \<le> 2 powi b" and b: "- 1074 \<le> b" "b \<le> 1023"
  shows "\<exists>r. rnd x = Finite r \<and> 0 \<le> r \<and> r \<le> 2 powi b"
proof -
  define E where "E = \<lfloor>log 2 x\<rfloor>"
  define e where "e = ulp_exp x"
  define m where "m = round_even (x / 2 powi e)"
  define r where "r = of_int m * (2 :: real) powi e"
  have xa: "\<bar>x\<bar> = x" using x by simp
  have "(2 :: real) powi E \<le> 2 powi b"
    using floor_log2_bounds(1)[OF x(1)] x(2) unfolding E_def by linarith
  then have Eb: "E \<le> b" by (rule p2_le_D)
  have ee: "e = max (- 1074) (E - 52)" by (simp add: e_def ulp_exp_def E_def xa)
  have eb: "e \<le> b" using ee Eb b by simp
  have "x / 2 powi e \<le> 2 powi b / 2 powi e" using x(2) by (simp add: divide_right_mono)
  also have "\<dots> = of_int (2 ^ nat (b - e))" using eb by (simp add: p2_diff p2_of_int)
  finally have "m \<le> 2 ^ nat (b - e)" unfolding m_def by (rule round_even_le)
  then have "(of_int m :: real) \<le> of_int (2 ^ nat (b - e))" by (simp only: of_int_le_iff)
  then have "of_int m \<le> (2 :: real) powi (b - e)" using eb by (simp add: p2_of_int)
  then have "r \<le> 2 powi (b - e) * 2 powi e" unfolding r_def by (simp add: mult_right_mono)
  then have rb: "r \<le> 2 powi b" by (simp add: p2_add[symmetric])
  have "(0 :: real) \<le> x / 2 powi e" using x(1) by simp
  then have "of_int 0 \<le> x / 2 powi e" by simp
  then have "0 \<le> m" unfolding m_def by (rule round_even_ge)
  then have r0: "0 \<le> r" unfolding r_def by simp
  have "(2 :: real) powi b < inf_threshold" using b by (intro p2_less_threshold)
  then have fin: "\<not> inf_threshold \<le> \<bar>r\<bar>" using rb r0 by simp
  have "x \<noteq> 0" using x by simp
  then have "rnd x = Finite r"
    using fin unfolding rnd_nonzero[OF \<open>x \<noteq> 0\<close>] e_def[symmetric] m_def[symmetric] r_def[symmetric]
    by simp
  then show ?thesis using r0 rb by blast
qed

lemma rnd_lower:
  assumes x: "2 powi a \<le> x" and a: "- 1074 \<le> a" and r: "rnd x = Finite r"
  shows "2 powi a \<le> r"
proof -
  define E where "E = \<lfloor>log 2 x\<rfloor>"
  define e where "e = ulp_exp x"
  define m where "m = round_even (x / 2 powi e)"
  have x0: "0 < x" using x p2_pos[of a] by linarith
  have xa: "\<bar>x\<bar> = x" using x0 by simp
  have xn: "x \<noteq> 0" using x0 by simp
  have rr: "r = of_int m * 2 powi e"
    using r unfolding rnd_nonzero[OF xn] e_def[symmetric] m_def[symmetric]
    by (simp split: if_splits)
  have "(2 :: real) powi a < 2 powi (E + 1)"
    using floor_log2_bounds(2)[OF x0] x unfolding E_def by linarith
  then have "a < E + 1" by (rule p2_less_D)
  then have aE: "a \<le> E" by simp
  have ee: "e = max (- 1074) (E - 52)" by (simp add: e_def ulp_exp_def E_def xa)
  show ?thesis
  proof (cases "e \<le> a")
    case True
    have "2 powi a / 2 powi e \<le> x / 2 powi e" using x by (simp add: divide_right_mono)
    moreover have "2 powi a / (2 :: real) powi e = of_int (2 ^ nat (a - e))"
      using True by (simp add: p2_diff p2_of_int)
    ultimately have "of_int (2 ^ nat (a - e)) \<le> x / 2 powi e" by simp
    then have "2 ^ nat (a - e) \<le> m" unfolding m_def by (rule round_even_ge)
    then have "(of_int (2 ^ nat (a - e)) :: real) \<le> of_int m" by (simp only: of_int_le_iff)
    then have "(2 :: real) powi (a - e) \<le> of_int m" using True by (simp add: p2_of_int)
    then have "2 powi (a - e) * 2 powi e \<le> of_int m * (2 :: real) powi e"
      by (simp add: mult_right_mono)
    then show ?thesis unfolding rr by (simp add: p2_add[symmetric])
  next
    case False
    then have e52: "e = E - 52" using ee a by simp
    have "2 powi E / 2 powi e \<le> x / 2 powi e"
      using floor_log2_bounds(1)[OF x0] unfolding E_def by (simp add: divide_right_mono)
    moreover have "2 powi E / (2 :: real) powi e = of_int (2 ^ 52)"
      by (simp add: p2_diff e52)
    ultimately have "of_int (2 ^ 52) \<le> x / 2 powi e" by simp
    then have "2 ^ 52 \<le> m" unfolding m_def by (rule round_even_ge)
    then have "(of_int (2 ^ 52) :: real) \<le> of_int m" by (simp only: of_int_le_iff)
    moreover have "(2 :: real) powi 52 = of_int (2 ^ 52)" by simp
    ultimately have "(2 :: real) powi 52 \<le> of_int m" by (simp only:)
    then have "2 powi 52 * 2 powi e \<le> of_int m * (2 :: real) powi e"
      by (rule mult_right_mono) simp
    moreover have "(2 :: real) powi E = 2 powi 52 * 2 powi e"
      unfolding e52 by (subst p2_add[symmetric]) simp
    ultimately have "(2 :: real) powi E \<le> r" unfolding rr by (simp only:)
    then show ?thesis using p2_mono[OF aE] by linarith
  qed
qed

lemma rnd_p2: "- 1074 \<le> a \<Longrightarrow> a \<le> 1023 \<Longrightarrow> rnd (2 powi a) = Finite (2 powi a)"
  using rnd_upper[of "2 powi a" a] rnd_lower[of a "2 powi a"] by fastforce

lemma rnd_1: "rnd 1 = Finite 1"
  using rnd_p2[of 0] by simp

lemma rnd_2: "rnd 2 = Finite 2"
  using rnd_p2[of 1] by simp

lemma rnd_half: "rnd (1 / 2) = Finite (1 / 2)"
  using rnd_p2[of "- 1"] by (simp add: power_int_minus_divide)

lemma rnd_of_int:
  assumes "rnd (of_int n) = Finite r"
  shows "r \<in> \<int>"
proof (cases "n = 0")
  case True
  then show ?thesis using assms by (simp add: rnd_def)
next
  case False
  define x :: real where "x = of_int n"
  define e where "e = ulp_exp x"
  define m where "m = round_even (x / 2 powi e)"
  have xn: "x \<noteq> 0" using False by (simp add: x_def)
  have rr: "r = of_int m * 2 powi e"
    using assms unfolding x_def[symmetric] rnd_nonzero[OF xn] e_def[symmetric] m_def[symmetric]
    by (simp split: if_splits)
  show ?thesis
  proof (cases "0 \<le> e")
    case True
    then have "r = of_int (m * 2 ^ nat e)" unfolding rr by (simp add: p2_of_int)
    then show ?thesis by (simp only: Ints_of_int)
  next
    case False
    then have ne: "0 \<le> - e" by simp
    have "x / 2 powi e = x * 2 powi (- e)" by (simp add: power_int_minus field_simps)
    also have "\<dots> = of_int (n * 2 ^ nat (- e))" using ne by (simp add: p2_of_int x_def)
    finally have y: "x / 2 powi e = of_int (n * 2 ^ nat (- e))" .
    have "m = n * 2 ^ nat (- e)" unfolding m_def y by (rule round_even_of_int)
    then have "of_int m = x / 2 powi e" using y by simp
    then have "r = x" unfolding rr by simp
    then show ?thesis by (simp add: x_def)
  qed
qed

lemma rnd_pos_cases:
  assumes "0 \<le> x"
  shows "rnd x = PosInf \<or> (\<exists>r. rnd x = Finite r \<and> 0 \<le> r)"
proof (cases "x = 0")
  case True
  then show ?thesis by (simp add: rnd_def)
next
  case False
  have "of_int 0 \<le> x / 2 powi ulp_exp x" using assms by simp
  then have "0 \<le> round_even (x / 2 powi ulp_exp x)" by (rule round_even_ge)
  then have "0 \<le> of_int (round_even (x / 2 powi ulp_exp x)) * (2 :: real) powi ulp_exp x"
    by simp
  then show ?thesis
    unfolding rnd_nonzero[OF False] using inf_threshold_pos by auto
qed

lemma rnd_neg_cases:
  assumes "x \<le> 0"
  shows "rnd x = NegInf \<or> (\<exists>r. rnd x = Finite r \<and> r \<le> 0)"
proof -
  have "rnd (- x) = PosInf \<or> (\<exists>r. rnd (- x) = Finite r \<and> 0 \<le> r)"
    using assms by (intro rnd_pos_cases) simp
  then show ?thesis
    using rnd_minus[of "- x"] by (auto split: double.splits)
qed

lemma rnd_neg_bounds:
  assumes "2 powi a \<le> - x" "- x \<le> 2 powi b" "- 1074 \<le> a" "- 1074 \<le> b" "b \<le> 1023"
  shows "\<exists>r. rnd x = Finite r \<and> - (2 powi b) \<le> r \<and> r \<le> - (2 powi a)"
proof -
  have pos: "0 < - x" using assms(1) p2_pos[of a] by linarith
  from rnd_upper[OF pos assms(2,4,5)] obtain r where
    r: "rnd (- x) = Finite r" "r \<le> 2 powi b" by blast
  have "2 powi a \<le> r" using rnd_lower[OF assms(1,3) r(1)] .
  moreover have "rnd x = Finite (- r)" using rnd_minus[of "- x"] r(1) by simp
  ultimately show ?thesis using r(2) by simp
qed

lemma rnd_nonpos_bounds:
  assumes "x \<le> 0" "- x \<le> 2 powi b" "- 1074 \<le> b" "b \<le> 1023"
  shows "\<exists>r. rnd x = Finite r \<and> - (2 powi b) \<le> r \<and> r \<le> 0"
proof (cases "x = 0")
  case True
  then show ?thesis using p2_pos[of b] by (simp add: rnd_def less_imp_le)
next
  case False
  then have pos: "0 < - x" using assms(1) by simp
  from rnd_upper[OF pos assms(2,3,4)] obtain r where
    r: "rnd (- x) = Finite r" "0 \<le> r" "r \<le> 2 powi b" by blast
  have "rnd x = Finite (- r)" using rnd_minus[of "- x"] r(1) by simp
  then show ?thesis using r(2,3) by simp
qed

lemma rnd_one_minus_tiny:
  assumes "\<bar>p\<bar> \<le> 2 powi (- 54)"
  shows "rnd (1 - p) = Finite 1"
proof -
  define x where "x = 1 - p"
  have v54: "(2 :: real) powi (- 54) = 1 / 2 ^ 54" by (simp add: power_int_minus_divide)
  have x: "1 - 1 / 2 ^ 54 \<le> x" "x \<le> 1 + 1 / 2 ^ 54"
    using assms unfolding x_def v54 by linarith+
  have xn: "x \<noteq> 0" using x(1) by auto
  have thr: "\<not> inf_threshold \<le> \<bar>1 :: real\<bar>"
    using p2_less_threshold[of 0] by simp
  show ?thesis
  proof (cases "x < 1")
    case True
    have "2 powi (- 1) \<le> x" using x(1) by (simp add: power_int_minus_divide)
    moreover have "x < 2 powi (- 1 + 1)" using True by simp
    ultimately have "\<lfloor>log 2 x\<rfloor> = - 1" by (rule floor_log2_eq)
    then have e: "ulp_exp x = - 53" using True x(1) by (simp add: ulp_exp_def abs_if)
    have p: "(2 :: real) powi (- 53) = 1 / 2 ^ 53" by (simp add: power_int_minus_divide)
    have y: "x / 2 powi (- 53) = x * 2 ^ 53" unfolding p by simp
    have "2 ^ 53 - 1 / 2 \<le> x * 2 ^ 53" "x * 2 ^ 53 < 2 ^ 53" using x(1) True by simp_all
    then have "\<bar>x * 2 ^ 53 - of_int (2 ^ 53)\<bar> < 1 / 2 \<or>
        (\<bar>x * 2 ^ 53 - of_int (2 ^ 53)\<bar> = 1 / 2 \<and> even ((2 :: int) ^ 53))"
      by (auto simp add: abs_if)
    then have "round_even (x * 2 ^ 53) = 2 ^ 53" by (rule round_even_char)
    then have "of_int (round_even (x / 2 powi ulp_exp x)) * (2 :: real) powi ulp_exp x = 1"
      unfolding e y p by simp
    then show ?thesis
      unfolding x_def[symmetric] rnd_nonzero[OF xn] using thr by simp
  next
    case False
    have "2 powi 0 \<le> x" using False by simp
    moreover have "x < 2 powi (0 + 1)" using x(2) by simp
    ultimately have "\<lfloor>log 2 x\<rfloor> = 0" by (rule floor_log2_eq)
    then have e: "ulp_exp x = - 52" using False by (simp add: ulp_exp_def abs_if)
    have p: "(2 :: real) powi (- 52) = 1 / 2 ^ 52" by (simp add: power_int_minus_divide)
    have y: "x / 2 powi (- 52) = x * 2 ^ 52" unfolding p by simp
    have "2 ^ 52 \<le> x * 2 ^ 52" "x * 2 ^ 52 \<le> 2 ^ 52 + 1 / 4" using x(2) False by simp_all
    then have "\<bar>x * 2 ^ 52 - of_int (2 ^ 52)\<bar> < 1 / 2 \<or>
        (\<bar>x * 2 ^ 52 - of_int (2 ^ 52)\<bar> = 1 / 2 \<and> even ((2 :: int) ^ 52))"
      by (auto simp add: abs_if)
    then have "round_even (x * 2 ^ 52) = 2 ^ 52" by (rule round_even_char)
    then have "of_int (round_even (x / 2 powi ulp_exp x)) * (2 :: real) powi ulp_exp x = 1"
      unfolding e y p by simp
    then show ?thesis
      unfolding x_def[symmetric] rnd_nonzero[OF xn] using thr by simp
  qed
qed

lemma rnd_one_minus_upper:
  assumes "2 powi (- 54) < p" "p < 1"
  shows "\<exists>r. rnd (1 - p) = Finite r \<and> 0 \<le> r \<and> r \<le> 1 - (2 powi (- 53))"
proof -
  define x where "x = 1 - p"
  have v54: "(2 :: real) powi (- 54) = 1 / 2 ^ 54" by (simp add: power_int_minus_divide)
  have v53: "(2 :: real) powi (- 53) = 1 / 2 ^ 53" by (simp add: power_int_minus_divide)
  have x: "0 < x" "x < 1 - 1 / 2 ^ 54" using assms unfolding x_def v54 by linarith+
  have xn: "x \<noteq> 0" using x(1) by simp
  show ?thesis
  proof (cases "x < 1 / 2")
    case True
    then have "x \<le> 2 powi (- 1)" by (simp add: power_int_minus_divide)
    from rnd_upper[OF x(1) this] obtain r where
      "rnd x = Finite r" "0 \<le> r" "r \<le> 2 powi (- 1)" by auto
    then show ?thesis unfolding x_def[symmetric] v53 by (auto simp add: power_int_minus_divide)
  next
    case False
    have "2 powi (- 1) \<le> x" using False by (simp add: power_int_minus_divide)
    moreover have "x < 2 powi (- 1 + 1)" using x(2) by simp
    ultimately have "\<lfloor>log 2 x\<rfloor> = - 1" by (rule floor_log2_eq)
    then have e: "ulp_exp x = - 53" using x(1) by (simp add: ulp_exp_def abs_if)
    have y: "x / 2 powi (- 53) = x * 2 ^ 53" unfolding v53 by simp
    define m where "m = round_even (x * 2 ^ 53)"
    have "x * 2 ^ 53 < of_int (2 ^ 53) - 1 / 2" using x(2) by simp
    then have "m < 2 ^ 53" unfolding m_def by (rule round_even_less)
    then have m1: "m \<le> 2 ^ 53 - 1" by simp
    have "of_int 0 \<le> x * 2 ^ 53" using x(1) by simp
    then have m0: "0 \<le> m" unfolding m_def by (rule round_even_ge)
    define r where "r = of_int m * (2 :: real) powi (- 53)"
    have "(of_int m :: real) \<le> of_int (2 ^ 53 - 1)" using m1 by (simp only: of_int_le_iff)
    then have "r \<le> (2 ^ 53 - 1) / 2 ^ 53" unfolding r_def v53 by (simp add: divide_right_mono)
    then have r1: "r \<le> 1 - 1 / 2 ^ 53" by (simp add: field_simps)
    have r0: "0 \<le> r" unfolding r_def using m0 by simp
    have "r < 2 powi 0" using r1 by simp
    then have "r < inf_threshold" using p2_less_threshold[of 0] by simp
    then have "\<not> inf_threshold \<le> \<bar>r\<bar>" using r0 by simp
    then have "rnd x = Finite r"
      unfolding rnd_nonzero[OF xn] e y m_def[symmetric] r_def[symmetric] by simp
    then show ?thesis unfolding x_def[symmetric] v53 using r0 r1 by blast
  qed
qed

lemma ln_p2: "ln ((2 :: real) powi e) = of_int e * ln 2"
proof -
  have "ln ((2 :: real) powr of_int e) = of_int e * ln 2" by (simp add: ln_powr)
  then show ?thesis by (simp only: p2_powr)
qed

lemma flog_1: "flog (Finite 1) = Finite 0"
  by (simp add: rnd_def)

lemma flog_below_one:
  assumes "2 powi (- 53) \<le> a" "a \<le> 1 - (2 powi (- 53))"
  shows "\<exists>l. flog (Finite a) = Finite l \<and> - (2 powi 6) \<le> l \<and> l \<le> - (2 powi (- 53))"
proof -
  have a0: "0 < a" using assms(1) p2_pos[of "- 53"] by linarith
  have "ln a \<le> a - 1" using a0 by (rule ln_le_minus_one)
  then have up: "2 powi (- 53) \<le> - ln a" using assms(2) by linarith
  have "ln (2 powi (- 53)) \<le> ln a" using assms(1) a0 by simp
  moreover have "ln ((2 :: real) powi (- 53)) = - 53 * ln 2"
    using ln_p2[of "- 53"] by simp
  moreover have "ln (2 :: real) \<le> 1" using ln_le_minus_one[of "2 :: real"] by simp
  ultimately have "- ln a \<le> 53" by linarith
  then have lo: "- ln a \<le> 2 powi 6" by simp
  from rnd_neg_bounds[OF up lo] show ?thesis using a0 by simp
qed

lemma flog_unit:
  assumes "2 powi (- 1074) \<le> u" "u < 1"
  shows "\<exists>l. flog (Finite u) = Finite l \<and> - (2 powi 11) \<le> l \<and> l \<le> 0"
proof -
  have u0: "0 < u" using assms(1) p2_pos[of "- 1074"] by linarith
  have neg: "ln u \<le> 0" using u0 assms(2) by simp
  have "ln (2 powi (- 1074)) \<le> ln u" using assms(1) u0 by simp
  moreover have "ln ((2 :: real) powi (- 1074)) = - 1074 * ln 2"
    using ln_p2[of "- 1074"] by simp
  moreover have "ln (2 :: real) \<le> 1" using ln_le_minus_one[of "2 :: real"] by simp
  ultimately have "- ln u \<le> 1074" by linarith
  then have lo: "- ln u \<le> 2 powi 11" by simp
  from rnd_nonpos_bounds[OF neg lo] show ?thesis using u0 by simp
qed

lemma flog_unit_cases:
  assumes "0 < u" "u < 1"
  shows "flog (Finite u) = NegInf \<or> (\<exists>l. flog (Finite u) = Finite l \<and> l \<le> 0)"
proof -
  have "ln u \<le> 0" using assms by simp
  from rnd_neg_cases[OF this] show ?thesis using assms(1) by simp
qed

lemma flog_half: "\<exists>l. flog (Finite (1 / 2)) = Finite l \<and> l < 0"
proof -
  have "2 powi (- 53) \<le> (1 / 2 :: real)" "(1 / 2 :: real) \<le> 1 - (2 powi (- 53))"
    by (simp_all add: power_int_minus_divide)
  from flog_below_one[OF this] obtain l where
    "flog (Finite (1 / 2)) = Finite l" "l \<le> - (2 powi (- 53))" by blast
  then show ?thesis using p2_pos[of "- 53"] by (intro exI[of _ l]) simp
qed

lemma rnd_nonneg_bounds:
  assumes "0 \<le> x" "x \<le> 2 powi b" "- 1074 \<le> b" "b \<le> 1023"
  shows "\<exists>r. rnd x = Finite r \<and> 0 \<le> r \<and> r \<le> 2 powi b"
proof (cases "x = 0")
  case True
  then show ?thesis using p2_pos[of b] by (simp add: rnd_def less_imp_le)
next
  case False
  then have "0 < x" using assms(1) by simp
  from rnd_upper[OF this assms(2,3,4)] show ?thesis .
qed

lemma floor_plus_one_integer:
  assumes "floor_plus_one d = Finite k"
  shows "k \<in> \<int>"
proof (cases d)
  case (Finite x)
  then have "rnd (of_int (\<lfloor>x\<rfloor> + 1)) = Finite k" using assms by simp
  then show ?thesis by (rule rnd_of_int)
qed (use assms in simp_all)

lemma numInterval_integer: "numInterval u p = Finite k \<Longrightarrow> k \<in> \<int>"
  unfolding numInterval_def by (rule floor_plus_one_integer)

lemma floor_plus_one_bounds:
  assumes "0 \<le> q" "q \<le> 2 powi 64"
  shows "\<exists>k. floor_plus_one (Finite q) = Finite k \<and> 1 \<le> k"
proof -
  have n: "0 \<le> \<lfloor>q\<rfloor>" using assms(1) by simp
  have "of_int \<lfloor>q\<rfloor> \<le> q" by simp
  then have "of_int \<lfloor>q\<rfloor> + 1 \<le> 2 powi 64 + (1 :: real)" using assms(2) by linarith
  also have "\<dots> \<le> 2 powi 64 + 2 powi 64" by simp
  also have "\<dots> = 2 powi 65" by simp
  finally have up: "of_int \<lfloor>q\<rfloor> + 1 \<le> (2 :: real) powi 65" .
  have lo: "2 powi 0 \<le> (of_int \<lfloor>q\<rfloor> + 1 :: real)" using n by simp
  have pos: "0 < (of_int \<lfloor>q\<rfloor> + 1 :: real)" using n by linarith
  from rnd_upper[OF pos up] obtain k where k: "rnd (of_int \<lfloor>q\<rfloor> + 1) = Finite k" by auto
  have "2 powi 0 \<le> k" using rnd_lower[OF lo _ k] by simp
  then show ?thesis using k by simp
qed

lemma numInterval_in_range:
  assumes p: "2 powi (- 54) < p" "p \<le> 1 - 2 powi (- 53)"
    and u: "2 powi (- 1074) \<le> u" "u < 1"
  shows "\<exists>k. numInterval u p = Finite (of_int k) \<and> 1 \<le> k"
proof -
  have p1: "p < 1" using p(2) p2_pos[of "- 53"] by linarith
  from rnd_one_minus_upper[OF p(1) p1] obtain a where
    a: "rnd (1 - p) = Finite a" "a \<le> 1 - 2 powi (- 53)" by blast
  have "2 powi (- 53) \<le> 1 - p" using p(2) by linarith
  then have a_lo: "2 powi (- 53) \<le> a" by (rule rnd_lower[OF _ _ a(1)]) simp
  from flog_below_one[OF a_lo a(2)] obtain lp where
    lp: "flog (Finite a) = Finite lp" "- (2 powi 6) \<le> lp" "lp \<le> - (2 powi (- 53))" by blast
  from flog_unit[OF u] obtain lu where
    lu: "flog (Finite u) = Finite lu" "- (2 powi 11) \<le> lu" "lu \<le> 0" by blast
  have lpn: "lp < 0" using lp(3) p2_pos[of "- 53"] by linarith
  have q0: "0 \<le> lu / lp" using lu(3) lpn by (simp add: divide_nonpos_neg)
  have "lu / lp = (- lu) / (- lp)" by simp
  also have "\<dots> \<le> 2 powi 11 / (- lp)"
    using lu(2) lpn by (intro divide_right_mono) simp_all
  also have "\<dots> \<le> 2 powi 11 / 2 powi (- 53)"
    using lp(3) by (intro divide_left_mono) simp_all
  also have "\<dots> = 2 powi 64" by (simp add: p2_diff)
  finally have q1: "lu / lp \<le> 2 powi 64" .
  from rnd_nonneg_bounds[OF q0 q1] obtain q where
    q: "rnd (lu / lp) = Finite q" "0 \<le> q" "q \<le> 2 powi 64" by auto
  from floor_plus_one_bounds[OF q(2,3)] obtain k where
    k: "floor_plus_one (Finite q) = Finite k" "1 \<le> k" by blast
  have ni: "numInterval u p = Finite k"
    unfolding numInterval_def a(1) lp(1) lu(1) using lpn q(1) k(1) by simp
  from numInterval_integer[OF ni] obtain z where z: "k = of_int z" by (auto elim: Ints_cases)
  then have "1 \<le> z" using k(2) by simp
  then show ?thesis using ni z by blast
qed

lemma numInterval_tiny:
  assumes "rnd (1 - p) = Finite 1" "0 < u" "u < 1"
  shows "\<not> greater_zero (numInterval u p)"
proof -
  have d: "flog (rnd (1 - p)) = Finite 0" unfolding assms(1) by (rule flog_1)
  from flog_unit_cases[OF assms(2,3)] show ?thesis
  proof
    assume "flog (Finite u) = NegInf"
    then show ?thesis unfolding numInterval_def d by (simp del: flog.simps)
  next
    assume "\<exists>l. flog (Finite u) = Finite l \<and> l \<le> 0"
    then obtain l where "flog (Finite u) = Finite l" "l \<le> 0" by blast
    then show ?thesis unfolding numInterval_def d by (simp del: flog.simps)
  qed
qed

lemma time_product_of_int:
  "time_product (of_int k) T =
     (if \<bar>k\<bar> < 2 ^ 63 \<and> \<bar>k * T\<bar> < 2 ^ 63 then Inr (k * T) else Inl TimeOverflow)"
proof -
  have a: "(\<bar>real_of_int k\<bar> < 2 ^ 63) = (\<bar>k\<bar> < 2 ^ 63)"
    using of_int_less_iff[of "\<bar>k\<bar>" "2 ^ 63", where 'a = real] by simp
  have b: "(\<bar>real_of_int k * of_int T\<bar> < 2 ^ 63) = (\<bar>k * T\<bar> < 2 ^ 63)"
    using of_int_less_iff[of "\<bar>k * T\<bar>" "2 ^ 63", where 'a = real] by simp
  have c: "round (real_of_int k * of_int T) = k * T"
    by (simp only: of_int_mult[symmetric] round_of_int)
  show ?thesis unfolding time_product_def a b c ..
qed

lemma next_interval_pr_ge_1: "1 \<le> p \<Longrightarrow> next_interval u p T = Inl AssertBernoulliPr"
  by (simp add: next_interval_def)

lemma next_interval_pr_less_1: "p < 1 \<Longrightarrow> next_interval u p T \<noteq> Inl AssertBernoulliPr"
  by (auto simp add: next_interval_def Let_def time_product_def split: double.splits)

lemma next_interval_in_range:
  assumes p: "2 powi (- 54) < p" "p \<le> 1 - 2 powi (- 53)"
    and u: "2 powi (- 1074) \<le> u" "u < 1"
  shows "\<exists>k. 1 \<le> k \<and> numInterval u p = Finite (of_int k) \<and>
             next_interval u p T =
               (if k < 2 ^ 63 \<and> \<bar>k * T\<bar> < 2 ^ 63 then Inr (k * T) else Inl TimeOverflow)"
proof -
  have p1: "p < 1" using p(2) p2_pos[of "- 53"] by linarith
  from numInterval_in_range[OF assms] obtain k where
    k: "numInterval u p = Finite (of_int k)" "1 \<le> k" by blast
  have "\<bar>k\<bar> = k" using k(2) by simp
  then have "next_interval u p T =
               (if k < 2 ^ 63 \<and> \<bar>k * T\<bar> < 2 ^ 63 then Inr (k * T) else Inl TimeOverflow)"
    using p1 k by (simp add: next_interval_def time_product_of_int)
  then show ?thesis using k by blast
qed

lemma next_interval_tiny:
  assumes "\<bar>p\<bar> \<le> 2 powi (- 54)" "0 < u" "u < 1"
  shows "next_interval u p T = Inl AssertNumInterval"
proof -
  have "(2 :: real) powi (- 54) < 1" using p2_strict[of "- 54" 0] by simp
  then have p1: "p < 1" using assms(1) by linarith
  have "\<not> greater_zero (numInterval u p)"
    using numInterval_tiny[OF rnd_one_minus_tiny[OF assms(1)] assms(2,3)] .
  then show ?thesis using p1 by (simp add: next_interval_def)
qed

lemma next_interval_Inr:
  assumes "next_interval u p T = Inr interval"
  shows "\<exists>k. 1 \<le> k \<and> numInterval u p = Finite (of_int k) \<and> interval = k * T \<and> p < 1"
proof -
  have p1: "p < 1" using assms by (simp add: next_interval_def split: if_splits)
  have g: "greater_zero (numInterval u p)"
    using assms p1 by (simp add: next_interval_def Let_def split: if_splits)
  obtain x where x: "numInterval u p = Finite x"
    using assms p1 g by (cases "numInterval u p") (simp_all add: next_interval_def)
  from numInterval_integer[OF x] obtain k where k: "x = of_int k" by (auto elim: Ints_cases)
  have k1: "1 \<le> k" using g x k by simp
  have "time_product (of_int k) T = Inr interval"
    using assms p1 g x k by (simp add: next_interval_def)
  then have "interval = k * T" by (simp add: time_product_of_int split: if_splits)
  then show ?thesis using k1 x k p1 by blast
qed

lemma numInterval_half: "numInterval (1 / 2) (1 / 2) = Finite 2"
proof -
  obtain l where l: "flog (Finite (1 / 2)) = Finite l" "l < 0" using flog_half by blast
  have "rnd (1 - 1 / 2) = Finite (1 / 2)" using rnd_half by simp
  then show ?thesis
    unfolding numInterval_def using l by (simp add: rnd_1 rnd_2 del: flog.simps)
qed

lemma next_interval_half: "next_interval (1 / 2) (1 / 2) 9000 = Inr 18000"
  using time_product_of_int[of 2 9000]
  by (simp add: next_interval_def numInterval_half)

lemma rnd_below_one: "rnd (1 - 1 / 2 ^ 53) = Finite (1 - 1 / 2 ^ 53)"
proof -
  define x :: real where "x = 1 - 1 / 2 ^ 53"
  have x: "1 / 2 \<le> x" "x < 1" "x \<noteq> 0" by (simp_all add: x_def)
  have "2 powi (- 1) \<le> x" using x(1) by (simp add: power_int_minus_divide)
  moreover have "x < 2 powi (- 1 + 1)" using x(2) by simp
  ultimately have "\<lfloor>log 2 x\<rfloor> = - 1" by (rule floor_log2_eq)
  then have e: "ulp_exp x = - 53" using x by (simp add: ulp_exp_def abs_if)
  have p: "(2 :: real) powi (- 53) = 1 / 2 ^ 53" by (simp add: power_int_minus_divide)
  have y: "x / 2 powi (- 53) = of_int (2 ^ 53 - 1)" unfolding p by (simp add: x_def)
  have m: "round_even (x / 2 powi (- 53)) = 2 ^ 53 - 1" unfolding y by (rule round_even_of_int)
  have "of_int (round_even (x / 2 powi (- 53))) * (2 :: real) powi (- 53)
          = of_int (2 ^ 53 - 1) * 2 powi (- 53)"
    by (simp only: m)
  also have "\<dots> = x" by (simp add: x_def power_int_minus_divide)
  finally have r: "of_int (round_even (x / 2 powi ulp_exp x)) * (2 :: real) powi ulp_exp x = x"
    by (simp only: e)
  have "x < 2 powi 0" using x(2) by simp
  then have "x < inf_threshold" using p2_less_threshold[of 0] by simp
  then have "\<not> inf_threshold \<le> \<bar>x\<bar>" using x(1) by simp
  then show ?thesis
    unfolding x_def[symmetric] rnd_nonzero[OF x(3)] r by simp
qed

lemma flog_half_bounds: "\<exists>l. flog (Finite (1 / 2)) = Finite l \<and> - 1 \<le> l \<and> l \<le> - (1 / 2)"
proof -
  have "ln (1 / 2 :: real) \<le> 1 / 2 - 1" by (rule ln_le_minus_one) simp
  then have a: "2 powi (- 1) \<le> - ln (1 / 2 :: real)" by (simp add: power_int_minus_divide)
  have "- (1 / 2) - 2 * (1 / 2)\<^sup>2 \<le> ln (1 - 1 / 2 :: real)"
    by (rule ln_one_minus_pos_lower_bound) simp_all
  then have b: "- ln (1 / 2 :: real) \<le> 2 powi 0" by (simp add: power2_eq_square)
  from rnd_neg_bounds[OF a b] show ?thesis by (simp add: power_int_minus_divide)
qed

lemma flog_below_one_bounds:
  "\<exists>l. flog (Finite (1 - 1 / 2 ^ 53)) = Finite l \<and> - (2 powi (- 52)) \<le> l \<and> l \<le> - (2 powi (- 53))"
proof -
  define t :: real where "t = 1 / 2 ^ 53"
  have t: "0 \<le> t" "t \<le> 1 / 2" "0 < 1 - t" by (simp_all add: t_def)
  have p53: "(2 :: real) powi (- 53) = t" by (simp add: t_def power_int_minus_divide)
  have p52: "(2 :: real) powi (- 52) = 2 * t" by (simp add: t_def power_int_minus_divide)
  have "ln (1 - t) \<le> (1 - t) - 1" using t(3) by (rule ln_le_minus_one)
  then have a: "2 powi (- 53) \<le> - ln (1 - t)" unfolding p53 by simp
  have "- t - 2 * t\<^sup>2 \<le> ln (1 - t)" using t(1,2) by (rule ln_one_minus_pos_lower_bound)
  moreover have "t * t \<le> t * (1 / 2)" using t(1,2) by (intro mult_left_mono) simp_all
  then have "t\<^sup>2 \<le> t / 2" by (simp add: power2_eq_square)
  ultimately have b: "- ln (1 - t) \<le> 2 powi (- 52)" unfolding p52 by linarith
  from rnd_neg_bounds[OF a b] show ?thesis using t(3) unfolding t_def by simp
qed

lemma next_interval_overflow: "next_interval (1 / 2) (1 / 2 ^ 53) 9000 = Inl TimeOverflow"
proof -
  obtain lu where lu: "flog (Finite (1 / 2)) = Finite lu" "- 1 \<le> lu" "lu \<le> - (1 / 2)"
    using flog_half_bounds by blast
  obtain lp where lp: "flog (Finite (1 - 1 / 2 ^ 53)) = Finite lp"
      "- (2 powi (- 52)) \<le> lp" "lp \<le> - (2 powi (- 53))"
    using flog_below_one_bounds by blast
  have lpn: "lp < 0" using lp(3) p2_pos[of "- 53"] by linarith
  have "2 powi 51 = (1 / 2) / (2 :: real) powi (- 52)"
    by (simp add: power_int_minus_divide)
  also have "\<dots> \<le> (1 / 2) / (- lp)" using lp(2) lpn by (intro divide_left_mono) simp_all
  also have "\<dots> \<le> (- lu) / (- lp)" using lu(3) lpn by (intro divide_right_mono) simp_all
  also have "\<dots> = lu / lp" by simp
  finally have q_lo: "2 powi 51 \<le> lu / lp" .
  have "lu / lp = (- lu) / (- lp)" by simp
  also have "\<dots> \<le> 1 / (- lp)" using lu(2) lpn by (intro divide_right_mono) simp_all
  also have "\<dots> \<le> 1 / 2 powi (- 53)" using lp(3) by (intro divide_left_mono) simp_all
  also have "\<dots> = 2 powi 53" by (simp add: power_int_minus_divide)
  finally have q_hi: "lu / lp \<le> 2 powi 53" .
  have q_pos: "0 < lu / lp" using q_lo p2_pos[of 51] by linarith
  from rnd_upper[OF q_pos q_hi] obtain q where
    q: "rnd (lu / lp) = Finite q" "0 \<le> q" "q \<le> 2 powi 53" by auto
  have q51: "2 powi 51 \<le> q" using rnd_lower[OF q_lo _ q(1)] by simp
  have "q \<le> 2 powi 64" using q(3) p2_mono[of 53 64] by simp
  from floor_plus_one_bounds[OF q(2) this] obtain k where
    k: "floor_plus_one (Finite q) = Finite k" by blast
  define n where "n = \<lfloor>q\<rfloor>"
  have kn: "rnd (of_int n + 1) = Finite k" using k by (simp add: n_def)
  have p51: "(2 :: real) powi 51 = of_int (2 ^ 51)" by simp
  have "of_int (2 ^ 51) \<le> q" using q51 unfolding p51 .
  then have "2 ^ 51 \<le> n" unfolding n_def by (simp only: le_floor_iff)
  then have "(of_int (2 ^ 51) :: real) \<le> of_int n" by (simp only: of_int_le_iff)
  then have "(of_int (2 ^ 51) :: real) \<le> of_int n + 1" by linarith
  then have n51: "2 powi 51 \<le> (of_int n + 1 :: real)" unfolding p51 .
  have k51: "2 powi 51 \<le> k" by (rule rnd_lower[OF n51 _ kn]) simp
  have ni: "numInterval (1 / 2) (1 / 2 ^ 53) = Finite k"
    unfolding numInterval_def rnd_below_one lu(1) lp(1) using lpn q(1) k by simp
  from numInterval_integer[OF ni] obtain z where z: "k = of_int z" by (auto elim: Ints_cases)
  have "(of_int (2 ^ 51) :: real) \<le> of_int z" using k51 z by simp
  then have z51: "2 ^ 51 \<le> z" by (simp only: of_int_le_iff)
  then have "2 ^ 51 * 9000 \<le> z * 9000" by simp
  then have big: "\<not> \<bar>z * 9000\<bar> < 2 ^ 63" by simp
  have g: "greater_zero (Finite (of_int z))" using z51 by simp
  have "next_interval (1 / 2) (1 / 2 ^ 53) 9000 = time_product (of_int z) 9000"
    unfolding next_interval_def ni z using g by simp
  then show ?thesis using big by (simp add: time_product_of_int)
qed

section \<open>Helper lemmas for the client\<close>

lemmas client_defs = client_a_def SetRemote_def BernoulliPacketSocketClient_def half_def
  SetPriority_def running_a_def client_three_def client_same_tid_def running_two_tids_def

lemma Send_unfold:
  assumes "IsExpired (m_sendEvent c)" "m_socket c = Some sock"
  shows "Send now ok c =
    (case next_interval (samples (m_uniformRngForInterval c) (drawn (m_uniformRngForInterval c)))
            (m_bernoulliPr c) (m_timeSlot c) of
       Inl e \<Rightarrow> Inl e
     | Inr interval \<Rightarrow>
         Inr (c\<lparr>m_socket := Some (Socket_Send (fst (choose_tid c sock)) (m_size c) ok),
                m_uniformRngForTid := snd (choose_tid c sock),
                m_txTrace := (if ok then m_txTrace c @ [m_size c] else m_txTrace c),
                m_sent := m_sent c + 1,
                m_uniformRngForInterval :=
                  (m_uniformRngForInterval c)\<lparr>drawn := drawn (m_uniformRngForInterval c) + 1\<rparr>,
                m_sendEvent := (if m_sent c + 1 < m_maxPackets c \<or> m_maxPackets c = 0
                                then Pending (now + interval) else m_sendEvent c)\<rparr>))"
  using assms
  by (simp add: Send_def GetValue_def Let_def split_def split: sum.splits)

lemma Send_returns:
  assumes "IsExpired (m_sendEvent c)" "m_socket c = Some sock"
    "next_interval (samples (m_uniformRngForInterval c) (drawn (m_uniformRngForInterval c)))
            (m_bernoulliPr c) (m_timeSlot c) = Inr interval"
  shows "\<exists>c'. Send now ok c = Inr c'"
  unfolding Send_unfold[OF assms(1,2)] using assms(3) by simp

lemma Send_needs_socket: "Send now ok c = Inr c' \<Longrightarrow> \<exists>sock. m_socket c = Some sock"
  by (cases "m_socket c") (simp_all add: Send_def split: if_splits)

lemma Send_needs_expired: "Send now ok c = Inr c' \<Longrightarrow> IsExpired (m_sendEvent c)"
  by (simp add: Send_def split: if_splits)

lemma choose_tid_equal:
  "m_optionalTid c = ucast (m_priority c) \<Longrightarrow> choose_tid c sock = (sock, m_uniformRngForTid c)"
  by (simp add: choose_tid_def)

lemma choose_tid_differ:
  "m_optionalTid c \<noteq> ucast (m_priority c) \<Longrightarrow>
   choose_tid c sock =
     (Socket_SetPriority sock
        (if samples (m_uniformRngForTid c) (drawn (m_uniformRngForTid c)) < m_optionalTidPr c
         then ucast (m_optionalTid c) else m_priority c),
      (m_uniformRngForTid c)\<lparr>drawn := drawn (m_uniformRngForTid c) + 1\<rparr>)"
  by (simp add: choose_tid_def GetValue_def)

lemma StartApplication_fresh:
  assumes "m_peerAddressSet c" "m_socket c = None"
  shows "StartApplication now c =
     Inr (c\<lparr>m_socket := Some (if m_priority c \<noteq> 0
                                then Socket_SetPriority CreateSocket (m_priority c)
                                else CreateSocket),
            m_sendEvent := Pending now\<rparr>)"
  using assms by (simp add: StartApplication_def)

lemma StopApplication_started:
  "m_socket c = Some sock \<Longrightarrow>
   StopApplication c =
     Inr (c\<lparr>m_sendEvent := Cancel (m_sendEvent c), m_socket := Some (Socket_Close sock)\<rparr>)"
  by (simp add: StopApplication_def)

lemma IsExpired_Cancel: "IsExpired (Cancel e)"
  by (cases e) simp_all

lemma Cancel_Cancel: "Cancel (Cancel e) = Cancel e"
  by (cases e) simp_all

lemma fire_pending:
  "m_sendEvent c = Pending t \<Longrightarrow> fire ok c = Send t ok (c\<lparr>m_sendEvent := HasRun\<rparr>)"
  by (simp add: fire_def)

lemma fire_expired: "IsExpired (m_sendEvent c) \<Longrightarrow> fire ok c = Inr c"
  by (cases "m_sendEvent c") (simp_all add: fire_def)

lemma run_expired: "IsExpired (m_sendEvent c) \<Longrightarrow> run oks c = Inr c"
  by (induction oks) (simp_all add: fire_expired)

lemma fire_step:
  assumes ev: "m_sendEvent c = Pending t"
    and sock: "m_socket c = Some sock"
    and iv: "next_interval (samples (m_uniformRngForInterval c) (drawn (m_uniformRngForInterval c)))
               (m_bernoulliPr c) (m_timeSlot c) = Inr interval"
  shows "\<exists>c' sock'. fire ok c = Inr c' \<and>
           m_socket c' = Some sock' \<and> sk_closed sock' = sk_closed sock \<and>
           length (sk_packets sock') = length (sk_packets sock) + 1 \<and>
           m_sent c' = m_sent c + 1 \<and>
           m_sendEvent c' = (if m_sent c + 1 < m_maxPackets c \<or> m_maxPackets c = 0
                             then Pending (t + interval) else HasRun) \<and>
           m_maxPackets c' = m_maxPackets c \<and> m_bernoulliPr c' = m_bernoulliPr c \<and>
           m_timeSlot c' = m_timeSlot c \<and>
           samples (m_uniformRngForInterval c') = samples (m_uniformRngForInterval c)"
proof -
  have closed: "sk_closed (fst (choose_tid c sock)) = sk_closed sock"
    by (cases "m_optionalTid c = ucast (m_priority c)")
      (simp_all add: choose_tid_equal choose_tid_differ Socket_SetPriority_def)
  have pk: "sk_packets (fst (choose_tid c sock)) = sk_packets sock"
    by (cases "m_optionalTid c = ucast (m_priority c)")
      (simp_all add: choose_tid_equal choose_tid_differ Socket_SetPriority_def)
  have ex: "IsExpired (m_sendEvent (c\<lparr>m_sendEvent := HasRun\<rparr>))" by simp
  have so: "m_socket (c\<lparr>m_sendEvent := HasRun\<rparr>) = Some sock" using sock by simp
  have ct: "choose_tid (c\<lparr>m_sendEvent := HasRun\<rparr>) sock = choose_tid c sock"
    by (simp add: choose_tid_def GetValue_def)
  define c' where "c' = c\<lparr>m_sendEvent := HasRun\<rparr>
      \<lparr>m_socket := Some (Socket_Send (fst (choose_tid c sock)) (m_size c) ok),
       m_uniformRngForTid := snd (choose_tid c sock),
       m_txTrace := (if ok then m_txTrace c @ [m_size c] else m_txTrace c),
       m_sent := m_sent c + 1,
       m_uniformRngForInterval :=
         (m_uniformRngForInterval c)\<lparr>drawn := drawn (m_uniformRngForInterval c) + 1\<rparr>,
       m_sendEvent := (if m_sent c + 1 < m_maxPackets c \<or> m_maxPackets c = 0
                       then Pending (t + interval) else HasRun)\<rparr>"
  have f: "fire ok c = Inr c'"
    unfolding fire_pending[OF ev] Send_unfold[OF ex so] c'_def
    using iv by (simp add: ct)
  show ?thesis
    apply (rule exI[of _ c'])
    apply (rule exI[of _ "Socket_Send (fst (choose_tid c sock)) (m_size c) ok"])
    using f closed pk by (simp add: c'_def Socket_Send_def)
qed

lemma Send_equal_tid:
  assumes eq: "m_optionalTid c = ucast (m_priority c)"
    and sock: "m_socket c = Some sock"
    and s: "Send now ok c = Inr c'"
  shows "m_socket c' = Some (Socket_Send sock (m_size c) ok) \<and>
         m_uniformRngForTid c' = m_uniformRngForTid c \<and>
         m_priority c' = m_priority c \<and> m_optionalTid c' = m_optionalTid c"
proof -
  have ex: "IsExpired (m_sendEvent c)" using s by (rule Send_needs_expired)
  show ?thesis
    using s unfolding Send_unfold[OF ex sock]
    by (auto simp add: choose_tid_equal[OF eq] split: sum.splits)
qed

lemma fire_equal_tid:
  assumes eq: "m_optionalTid c = ucast (m_priority c)"
    and sock: "m_socket c = Some sock"
    and f: "fire ok c = Inr c'"
  shows "\<exists>sock'. m_socket c' = Some sock' \<and>
           sk_priority sock' = sk_priority sock \<and>
           sk_setPriorityCalls sock' = sk_setPriorityCalls sock \<and>
           set (sk_packets sock') \<subseteq> insert (m_size c, sk_priority sock, ok) (set (sk_packets sock)) \<and>
           m_uniformRngForTid c' = m_uniformRngForTid c \<and>
           m_priority c' = m_priority c \<and> m_optionalTid c' = m_optionalTid c \<and>
           m_size c' = m_size c"
proof (cases "m_sendEvent c")
  case (Pending t)
  let ?c = "c\<lparr>m_sendEvent := HasRun\<rparr>"
  have s: "Send t ok ?c = Inr c'" using f fire_pending[OF Pending] by simp
  have e: "m_optionalTid ?c = ucast (m_priority ?c)" using eq by simp
  have so: "m_socket ?c = Some sock" using sock by simp
  have ex: "IsExpired (m_sendEvent ?c)" by simp
  have sz: "m_size c' = m_size c"
    using s unfolding Send_unfold[OF ex so] by (auto split: sum.splits)
  show ?thesis
    using Send_equal_tid[OF e so s] sz by (auto simp add: Socket_Send_def)
next
  case NeverScheduled
  then have "c' = c" using f by (simp add: fire_def)
  then show ?thesis using sock by auto
next
  case HasRun
  then have "c' = c" using f by (simp add: fire_def)
  then show ?thesis using sock by auto
next
  case Cancelled
  then have "c' = c" using f by (simp add: fire_def)
  then show ?thesis using sock by auto
qed

lemma run_equal_tid:
  assumes "m_optionalTid c = ucast (m_priority c)" "m_socket c = Some sock" "run oks c = Inr c'"
  shows "\<exists>sock'. m_socket c' = Some sock' \<and>
           sk_priority sock' = sk_priority sock \<and>
           sk_setPriorityCalls sock' = sk_setPriorityCalls sock \<and>
           (\<forall>pkt \<in> set (sk_packets sock').
               pkt \<in> set (sk_packets sock) \<or> fst (snd pkt) = sk_priority sock) \<and>
           m_uniformRngForTid c' = m_uniformRngForTid c \<and>
           m_priority c' = m_priority c \<and> m_optionalTid c' = m_optionalTid c"
  using assms
proof (induction oks arbitrary: c sock)
  case Nil
  then show ?case by auto
next
  case (Cons ok oks)
  from Cons.prems(3) obtain c1 where f: "fire ok c = Inr c1" and r: "run oks c1 = Inr c'"
    by (auto split: sum.splits)
  from fire_equal_tid[OF Cons.prems(1,2) f] obtain sock1 where
    s1: "m_socket c1 = Some sock1" "sk_priority sock1 = sk_priority sock"
      "sk_setPriorityCalls sock1 = sk_setPriorityCalls sock"
      "set (sk_packets sock1) \<subseteq> insert (m_size c, sk_priority sock, ok) (set (sk_packets sock))"
      "m_uniformRngForTid c1 = m_uniformRngForTid c"
      "m_priority c1 = m_priority c" "m_optionalTid c1 = m_optionalTid c"
    by blast
  have e1: "m_optionalTid c1 = ucast (m_priority c1)" using s1 Cons.prems(1) by simp
  from Cons.IH[OF e1 s1(1) r] obtain sock' where
    s': "m_socket c' = Some sock'" "sk_priority sock' = sk_priority sock1"
      "sk_setPriorityCalls sock' = sk_setPriorityCalls sock1"
      "\<forall>pkt \<in> set (sk_packets sock').
               pkt \<in> set (sk_packets sock1) \<or> fst (snd pkt) = sk_priority sock1"
      "m_uniformRngForTid c' = m_uniformRngForTid c1"
      "m_priority c' = m_priority c1" "m_optionalTid c' = m_optionalTid c1"
    by blast
  have "\<forall>pkt \<in> set (sk_packets sock').
               pkt \<in> set (sk_packets sock) \<or> fst (snd pkt) = sk_priority sock"
    using s'(4) s1(2,4) by fastforce
  then show ?case using s' s1 by simp
qed

lemma run_total:
  assumes "m_socket c = Some sock"
    "\<forall>i. \<exists>interval. next_interval (samples (m_uniformRngForInterval c) i)
                        (m_bernoulliPr c) (m_timeSlot c) = Inr interval"
  shows "\<exists>c'. run oks c = Inr c'"
  using assms
proof (induction oks arbitrary: c sock)
  case Nil
  then show ?case by simp
next
  case (Cons ok oks)
  show ?case
  proof (cases "m_sendEvent c")
    case (Pending t)
    from Cons.prems(2) obtain interval where
      "next_interval (samples (m_uniformRngForInterval c) (drawn (m_uniformRngForInterval c)))
               (m_bernoulliPr c) (m_timeSlot c) = Inr interval" by blast
    from fire_step[OF Pending Cons.prems(1) this, of ok] obtain c1 sock1 where
      "fire ok c = Inr c1" "m_socket c1 = Some sock1" "m_bernoulliPr c1 = m_bernoulliPr c"
      "m_timeSlot c1 = m_timeSlot c"
      "samples (m_uniformRngForInterval c1) = samples (m_uniformRngForInterval c)"
      by blast
    then show ?thesis using Cons.IH[of c1 sock1] Cons.prems by simp
  next
    case NeverScheduled
    then show ?thesis by (simp add: run_expired fire_expired)
  next
    case HasRun
    then show ?thesis by (simp add: run_expired fire_expired)
  next
    case Cancelled
    then show ?thesis by (simp add: run_expired fire_expired)
  qed
qed

lemma sent_less:
  assumes "j < unat (N :: 32 word)"
  shows "((of_nat j + 1 :: 32 word) < N) = (j + 1 < unat N)"
    and "(of_nat j + 1 :: 32 word) = of_nat (j + 1)"
proof -
  have "unat N < 2 ^ 32" using unsigned_less[of N] by simp
  then have "j + 1 < 2 ^ 32" using assms by simp
  then have "unat (of_nat (j + 1) :: 32 word) = j + 1"
    by (intro of_nat_inverse[OF refl]) simp
  moreover show "(of_nat j + 1 :: 32 word) = of_nat (j + 1)" by simp
  ultimately show "((of_nat j + 1 :: 32 word) < N) = (j + 1 < unat N)"
    by (simp add: word_less_nat_alt del: of_nat_add of_nat_Suc)
qed

lemma run_count:
  assumes "m_socket c = Some sock" "\<not> sk_closed sock"
    "\<forall>i. \<exists>interval. next_interval (samples (m_uniformRngForInterval c) i)
                        (m_bernoulliPr c) (m_timeSlot c) = Inr interval"
    "m_sent c = of_nat j" "j < unat (m_maxPackets c)" "m_sendEvent c = Pending t"
    "length (sk_packets sock) = j"
  shows "\<exists>c' sock'. run oks c = Inr c' \<and> m_socket c' = Some sock' \<and> \<not> sk_closed sock' \<and>
           length (sk_packets sock') = min (unat (m_maxPackets c)) (j + length oks) \<and>
           m_sent c' = of_nat (min (unat (m_maxPackets c)) (j + length oks)) \<and>
           (if j + length oks < unat (m_maxPackets c)
            then (\<exists>t'. m_sendEvent c' = Pending t') else m_sendEvent c' = HasRun)"
  using assms
proof (induction oks arbitrary: c sock j t)
  case Nil
  then show ?case by simp
next
  case (Cons ok oks)
  let ?N = "m_maxPackets c"
  have N0: "?N \<noteq> 0" using Cons.prems(5) by (auto simp add: unat_gt_0 dest: gr_implies_not0)
  from Cons.prems(3) obtain interval where
    iv: "next_interval (samples (m_uniformRngForInterval c) (drawn (m_uniformRngForInterval c)))
               (m_bernoulliPr c) (m_timeSlot c) = Inr interval" by blast
  from fire_step[OF Cons.prems(6) Cons.prems(1) iv, of ok]
  obtain c1 sock1 where
    f: "fire ok c = Inr c1" and s1: "m_socket c1 = Some sock1"
    and cl: "sk_closed sock1 = sk_closed sock"
    and len: "length (sk_packets sock1) = length (sk_packets sock) + 1"
    and sent: "m_sent c1 = m_sent c + 1"
    and ev: "m_sendEvent c1 = (if m_sent c + 1 < ?N \<or> ?N = 0
                             then Pending (t + interval) else HasRun)"
    and cfg: "m_maxPackets c1 = ?N" "m_bernoulliPr c1 = m_bernoulliPr c"
      "m_timeSlot c1 = m_timeSlot c"
      "samples (m_uniformRngForInterval c1) = samples (m_uniformRngForInterval c)"
    by blast
  have sent1: "m_sent c1 = of_nat (j + 1)"
    using sent Cons.prems(4) sent_less(2)[OF Cons.prems(5)] by simp
  have lt: "(m_sent c + 1 < ?N) = (j + 1 < unat ?N)"
    using sent_less(1)[OF Cons.prems(5)] Cons.prems(4) by simp
  show ?case
  proof (cases "j + 1 < unat ?N")
    case True
    have ev1: "m_sendEvent c1 = Pending (t + interval)" using ev lt True by simp
    have "\<exists>c' sock'. run oks c1 = Inr c' \<and> m_socket c' = Some sock' \<and> \<not> sk_closed sock' \<and>
           length (sk_packets sock') = min (unat (m_maxPackets c1)) ((j + 1) + length oks) \<and>
           m_sent c' = of_nat (min (unat (m_maxPackets c1)) ((j + 1) + length oks)) \<and>
           (if (j + 1) + length oks < unat (m_maxPackets c1)
            then (\<exists>t'. m_sendEvent c' = Pending t') else m_sendEvent c' = HasRun)"
      using Cons.prems cl len cfg True
      by (intro Cons.IH[OF s1 _ _ sent1 _ ev1]) simp_all
    then show ?thesis using f cfg by simp
  next
    case False
    then have j: "j + 1 = unat ?N" using Cons.prems(5) by simp
    have ev1: "m_sendEvent c1 = HasRun" using ev lt False N0 by simp
    have "(of_nat (j + 1) :: 32 word) = ?N" unfolding j by simp
    then have sentN: "m_sent c1 = ?N" using sent1 by simp
    have lenN: "length (sk_packets sock1) = unat ?N" using len j Cons.prems(7) by simp
    have "run oks c1 = Inr c1" using ev1 by (simp add: run_expired)
    then show ?thesis
      using f s1 cl sentN lenN ev1 j Cons.prems(2) by simp
  qed
qed

section \<open>Delay decomposition: the claims\<close>

text \<open>
  C1. For a bucket with at least one record, the head-of-line series has one entry per
  record, \<open>holTime[0] = enqueueTime[0]\<close> and
  \<open>holTime[i] = max (enqueueTime[i]) (dequeueTime[i - 1])\<close> for \<open>i > 0\<close>; the three series
  are then cut by their first element, and the mean queuing delay (the mean access delay)
  of the bucket is the sum over the cut series of \<open>holTime[i] - enqueueTime[i]\<close> (of
  \<open>dequeueTime[i] - holTime[i]\<close>) divided by \<open>numSuccess - 1\<close>.
\<close>

theorem C1_hol_series_and_means:
  assumes "records \<noteq> []"
  shows "(let enq = map m_enqueueMs records;
           deq = map m_dequeueMs records;
           hol = holTimes enq deq
       in length hol = length records \<and>
          hol ! 0 = enq ! 0 \<and>
          (\<forall>i. 0 < i \<and> i < length records \<longrightarrow> hol ! i = max (enq ! i) (deq ! (i - 1))) \<and>
          (\<exists>s. build_series records = Inr s \<and>
               enqueueTime s = tl enq \<and> dequeueTime s = tl deq \<and> holTime s = tl hol \<and>
               meanQueuingDelay s numSuccess =
                 ddiv (\<Sum>i<length records - 1. holTime s ! i - enqueueTime s ! i)
                      (real (unat (numSuccess - 1))) \<and>
               meanAccessDelay s numSuccess =
                 ddiv (\<Sum>i<length records - 1. dequeueTime s ! i - holTime s ! i)
                      (real (unat (numSuccess - 1)))) \<and>
          (numSuccess \<noteq> 0 \<longrightarrow> real (unat (numSuccess - 1)) = real (unat numSuccess) - 1))"
proof -
  have len: "0 < length records" using assms by simp
  have A: "length (holTimes (map m_enqueueMs records) (map m_dequeueMs records))
             = length records"
    by (simp add: length_holTimes)
  have B: "holTimes (map m_enqueueMs records) (map m_dequeueMs records) ! 0
             = map m_enqueueMs records ! 0"
    using len by (simp add: holTimes_nth)
  have C: "\<forall>i. 0 < i \<and> i < length records \<longrightarrow>
      holTimes (map m_enqueueMs records) (map m_dequeueMs records) ! i
        = max (map m_enqueueMs records ! i) (map m_dequeueMs records ! (i - 1))"
    by (simp add: holTimes_nth)
  have D: "numSuccess \<noteq> 0 \<longrightarrow> real (unat (numSuccess - 1)) = real (unat numSuccess) - 1"
    using unat_minus_one_real by blast
  have E: "\<exists>s. build_series records = Inr s \<and>
               enqueueTime s = tl (map m_enqueueMs records) \<and>
               dequeueTime s = tl (map m_dequeueMs records) \<and>
               holTime s = tl (holTimes (map m_enqueueMs records) (map m_dequeueMs records)) \<and>
               meanQueuingDelay s numSuccess =
                 ddiv (\<Sum>i<length records - 1. holTime s ! i - enqueueTime s ! i)
                      (real (unat (numSuccess - 1))) \<and>
               meanAccessDelay s numSuccess =
                 ddiv (\<Sum>i<length records - 1. dequeueTime s ! i - holTime s ! i)
                      (real (unat (numSuccess - 1)))"
    by (simp add: build_series_nonempty[OF assms] meanQueuingDelay_def meanAccessDelay_def
        totalQueuingDelay_sum totalAccessDelay_sum)
  show ?thesis unfolding Let_def using A B C D E by blast
qed

theorem C1_hol_series_and_means_witness:
  "spec_bucket \<noteq> [] \<and>
   holTimes (map m_enqueueMs spec_bucket) (map m_dequeueMs spec_bucket) = [0, 2, 6] \<and>
   (\<exists>s. build_series spec_bucket = Inr s \<and> holTime s = [2, 6] \<and>
        meanQueuingDelay s 3 = Finite 1 \<and> meanAccessDelay s 3 = Finite (7 / 2))"
  using C1_hol_series_and_means [of spec_bucket 3]
  by (simp add: spec_bucket_def stats_defs upt_conv_Cons del: upt_Suc)

text \<open>
  C2. The mean delay that \<open>main\<close> reports for a group of nodes is the sum of the totals
  of the group's buckets divided by the number of records of the group's buckets. Two
  buckets with totals 10 and 30 and with 5 and 15 records give \<open>40 / 20 = 2\<close>, also when
  the totals are computed from the records; the mean of the two per-bucket means that
  \<open>main\<close> computes for them is another number.
\<close>

theorem C2_weighted_group_mean:
  "sldMeanDelayLink1 totals successInfo n =
     ddiv (\<Sum>i\<leftarrow>[1..<1 + n]. \<Sum>(link, total)\<leftarrow>at_node totals i. total)
          (real (\<Sum>i\<leftarrow>[1..<1 + n]. \<Sum>(link, records)\<leftarrow>at_node successInfo i. length records)) \<and>
   sldMeanDelayLink1 two_totals two_flows 2 = Finite 2 \<and>
   sldMeanQueDelayLink1 two_flows 2 = Inr (Finite 2) \<and>
   (\<exists>a b. bucket_stats five_bucket 5 = Inr a \<and> bucket_stats fifteen_bucket 15 = Inr b \<and>
          meanQueuing a = Finite (5 / 2) \<and> meanQueuing b = Finite (15 / 7) \<and>
          (5 / 2 + 15 / 7) / 2 \<noteq> (2 :: real))"
proof -
  have tot: "sldDelayLink1Total two_totals 2 = 40"
    by (simp add: two_totals_def sldDelayLink1Total_sum upt_conv_Cons at_node_def
        del: upt_Suc)
  have ex: "sldMeanDelayLink1 two_totals two_flows 2 = Finite 2"
    by (simp add: sldMeanDelayLink1_def tot two_flows_count ddiv_def)
  have e2e: "sldMeanQueDelayLink1 two_flows 2 = Inr (Finite 2)"
    using two_flows_totals ex
    by (auto simp add: sldMeanQueDelayLink1_def split: sum.splits)
  have five: "bucket_stats five_bucket 5 =
      Inr \<lparr>totalQueuing = 10, totalAccess = 4, meanQueuing = Finite (5 / 2),
           meanAccess = Finite 1\<rparr>"
    by (simp add: five_bucket_def stats_defs upt_conv_Cons del: upt_Suc)
  have fifteen: "bucket_stats fifteen_bucket 15 =
      Inr \<lparr>totalQueuing = 30, totalAccess = 1, meanQueuing = Finite (15 / 7),
           meanAccess = Finite (1 / 14)\<rparr>"
    by (simp add: fifteen_bucket_def stats_defs upt_conv_Cons del: upt_Suc)
  have means: "\<exists>a b. bucket_stats five_bucket 5 = Inr a \<and> bucket_stats fifteen_bucket 15 = Inr b \<and>
          meanQueuing a = Finite (5 / 2) \<and> meanQueuing b = Finite (15 / 7) \<and>
          (5 / 2 + 15 / 7) / 2 \<noteq> (2 :: real)"
    by (simp add: five fifteen)
  have gen: "sldMeanDelayLink1 totals successInfo n =
     ddiv (\<Sum>i\<leftarrow>[1..<1 + n]. \<Sum>(link, total)\<leftarrow>at_node totals i. total)
          (real (\<Sum>i\<leftarrow>[1..<1 + n]. \<Sum>(link, records)\<leftarrow>at_node successInfo i. length records))"
    by (simp add: sldMeanDelayLink1_def sldDelayLink1Total_sum numSldSuccessLink1_sum)
  show ?thesis using gen ex e2e means by blast
qed

text \<open>
  C8, as the claim states it, fails for a bucket with no successful delivery: with no
  records and a success count of 0, \<open>main\<close> erases the first element of three empty
  vectors, and no mean is computed.
\<close>

theorem C8_counterexample:
  "(0 :: 64 word) \<le> 1 \<and> length ([] :: DelayRecord list) = unat (0 :: 64 word) \<and>
   build_series [] = Inl EraseOnEmptyVector \<and>
   bucket_stats [] 0 = Inl EraseOnEmptyVector"
  by (simp add: bucket_stats_def build_series_def erase_begin_def holTimes_def)

text \<open>
  C8, amended. For a bucket with at least one record and a success count of 1 the means
  are computed, as the plain quotients of the totals by \<open>1 - 1 = 0\<close>; when the count
  agrees with the records (exactly one record) both totals are 0 and both means are NaN,
  the value of \<open>0 / 0\<close>.
\<close>

theorem C8_unguarded_quotient:
  assumes "records \<noteq> []"
  shows "\<exists>b. bucket_stats records numSuccess = Inr b \<and>
    (numSuccess = 1 \<longrightarrow>
       meanQueuing b = ddiv (totalQueuing b) 0 \<and> meanAccess b = ddiv (totalAccess b) 0 \<and>
       (length records = 1 \<longrightarrow>
          totalQueuing b = 0 \<and> totalAccess b = 0 \<and>
          meanQueuing b = NaN \<and> meanAccess b = NaN))"
proof -
  from bucket_stats_nonempty[OF assms, of numSuccess] obtain s where
    s: "length (enqueueTime s) = length records - 1"
    and b: "bucket_stats records numSuccess =
       Inr \<lparr>totalQueuing = totalQueuingDelay s, totalAccess = totalAccessDelay s,
            meanQueuing = ddiv (totalQueuingDelay s) (real (unat (numSuccess - 1))),
            meanAccess = ddiv (totalAccessDelay s) (real (unat (numSuccess - 1)))\<rparr>"
    by blast
  have one: "length records = 1 \<Longrightarrow> totalQueuingDelay s = 0 \<and> totalAccessDelay s = 0"
    using s by (simp add: totalQueuingDelay_def totalAccessDelay_def)
  show ?thesis
    using one by (auto simp add: b ddiv_def)
qed

theorem C8_unguarded_quotient_witness:
  "[delay_record 0 2] \<noteq> [] \<and> length [delay_record 0 2] = unat (1 :: 64 word) \<and>
   bucket_stats [delay_record 0 2] 1 =
     Inr \<lparr>totalQueuing = 0, totalAccess = 0, meanQueuing = NaN, meanAccess = NaN\<rparr>"
  using C8_unguarded_quotient [of "[delay_record 0 2]" 1]
  by (simp add: stats_defs upt_conv_Cons del: upt_Suc)

section \<open>The client: the claims\<close>

text \<open>
  C3, as the claim states it, fails in two ways. For the probability \<open>2^-60\<close> the double
  \<open>1 - p\<close> is 1 and its logarithm is 0, so the quotient is minus infinity and the assertion
  \<open>numInterval > 0\<close> fails. For the probability \<open>2^-53\<close> the number of slots is at least
  \<open>2^51\<close> and its product with a time slot of 9000 ticks is beyond the 64 bit of a \<open>Time\<close>.
\<close>

theorem C3_counterexample:
  "(0 :: int) < 9000 \<and> (0 :: real) < 1 / 2 \<and> (1 / 2 :: real) < 1 \<and>
   (0 :: real) < 1 / 2 ^ 60 \<and> (1 / 2 ^ 60 :: real) < 1 \<and>
   numInterval (1 / 2) (1 / 2 ^ 60) = NegInf \<and>
   next_interval (1 / 2) (1 / 2 ^ 60) 9000 = Inl AssertNumInterval \<and>
   (0 :: real) < 1 / 2 ^ 53 \<and> (1 / 2 ^ 53 :: real) < 1 \<and>
   next_interval (1 / 2) (1 / 2 ^ 53) 9000 = Inl TimeOverflow"
proof -
  have t: "\<bar>1 / 2 ^ 60 :: real\<bar> \<le> 2 powi (- 54)" by (simp add: power_int_minus_divide)
  obtain l where l: "flog (Finite (1 / 2)) = Finite l" "l < 0" using flog_half by blast
  have d: "flog (rnd (1 - 1 / 2 ^ 60)) = Finite 0"
    unfolding rnd_one_minus_tiny[OF t] by (rule flog_1)
  have n: "numInterval (1 / 2) (1 / 2 ^ 60) = NegInf"
    unfolding numInterval_def d l(1) using l(2) by simp
  have a: "next_interval (1 / 2) (1 / 2 ^ 60) 9000 = Inl AssertNumInterval"
    using next_interval_tiny[OF t, of "1 / 2" 9000] by simp
  show ?thesis using n a next_interval_overflow by simp
qed

text \<open>
  C3, amended. Whenever the computation returns an interval, the number of slots
  \<open>floor (log u / log (1 - p)) + 1\<close>, computed in doubles, is a whole number \<open>k \<ge> 1\<close> and
  the interval is \<open>k * T\<close>. For every probability \<open>2^-54 < p \<le> 1 - 2^-53\<close> (every double
  below 1 above \<open>2^-54\<close>) and every sample \<open>2^-1074 \<le> u < 1\<close> (every positive double below
  1) the number of slots is such a \<open>k\<close> and both assertions pass; the interval is then
  \<open>k * T\<close> if \<open>k\<close> and \<open>k * T\<close> are below \<open>2^63\<close>, and otherwise the product does not fit a
  \<open>Time\<close>. So for \<open>T > 0\<close> and \<open>k * T < 2^63\<close> the interval is the positive multiple
  \<open>k * T\<close> of the time slot.
\<close>

theorem C3_interval_multiple_of_slot:
  "(next_interval u p T = Inr interval \<longrightarrow>
      (\<exists>k. 1 \<le> k \<and> numInterval u p = Finite (of_int k) \<and> interval = k * T)) \<and>
   (2 powi (- 54) < p \<and> p \<le> 1 - 2 powi (- 53) \<and> 2 powi (- 1074) \<le> u \<and> u < 1 \<longrightarrow>
      (\<exists>k. 1 \<le> k \<and> numInterval u p = Finite (of_int k) \<and>
           next_interval u p T =
             (if k < 2 ^ 63 \<and> \<bar>k * T\<bar> < 2 ^ 63 then Inr (k * T) else Inl TimeOverflow) \<and>
           (0 < T \<and> k * T < 2 ^ 63 \<longrightarrow> next_interval u p T = Inr (k * T) \<and> 0 < k * T)))"
proof -
  have A: "\<exists>k. 1 \<le> k \<and> numInterval u p = Finite (of_int k) \<and> interval = k * T"
    if "next_interval u p T = Inr interval"
    using next_interval_Inr[OF that] by blast
  have B: "\<exists>k. 1 \<le> k \<and> numInterval u p = Finite (of_int k) \<and>
           next_interval u p T =
             (if k < 2 ^ 63 \<and> \<bar>k * T\<bar> < 2 ^ 63 then Inr (k * T) else Inl TimeOverflow) \<and>
           (0 < T \<and> k * T < 2 ^ 63 \<longrightarrow> next_interval u p T = Inr (k * T) \<and> 0 < k * T)"
    if h: "2 powi (- 54) < p" "p \<le> 1 - 2 powi (- 53)" "2 powi (- 1074) \<le> u" "u < 1"
  proof -
    from next_interval_in_range[OF h, of T] obtain k where
      k: "1 \<le> k" "numInterval u p = Finite (of_int k)"
        "next_interval u p T =
           (if k < 2 ^ 63 \<and> \<bar>k * T\<bar> < 2 ^ 63 then Inr (k * T) else Inl TimeOverflow)"
      by blast
    have "next_interval u p T = Inr (k * T) \<and> 0 < k * T" if t: "0 < T" "k * T < 2 ^ 63"
    proof -
      have pos: "0 < k * T" using k(1) t(1) by (simp add: mult_pos_pos)
      have "k * 1 \<le> k * T" using k(1) t(1) by (intro mult_left_mono) simp_all
      then have "k < 2 ^ 63" using t(2) by simp
      then show ?thesis using k(3) pos t(2) by simp
    qed
    then show ?thesis using k by blast
  qed
  show ?thesis using A B by blast
qed

theorem C3_interval_multiple_of_slot_witness:
  "(2 powi (- 54) :: real) < 1 / 2 \<and> (1 / 2 :: real) \<le> 1 - 2 powi (- 53) \<and>
   (2 powi (- 1074) :: real) \<le> 1 / 2 \<and> (1 / 2 :: real) < 1 \<and> (0 :: int) < 9000 \<and>
   numInterval (1 / 2) (1 / 2) = Finite 2 \<and> next_interval (1 / 2) (1 / 2) 9000 = Inr 18000"
proof -
  have half: "(2 :: real) powi (- 1) = 1 / 2" by (simp add: power_int_minus_divide)
  have h1: "(2 powi (- 54) :: real) < 1 / 2" "(1 / 2 :: real) \<le> 1 - 2 powi (- 53)"
    by (simp_all add: power_int_minus_divide)
  have "(2 :: real) powi (- 1074) \<le> 2 powi (- 1)" by (rule p2_mono) simp
  then have h3: "(2 powi (- 1074) :: real) \<le> 1 / 2" by (simp only: half)
  have h4: "(1 / 2 :: real) < 1" by simp
  note h = h1 h3 h4
  from C3_interval_multiple_of_slot [of "1 / 2" "1 / 2" 9000 18000] h
  obtain k where k: "1 \<le> k" "numInterval (1 / 2) (1 / 2) = Finite (of_int k)"
    "0 < (9000 :: int) \<and> k * 9000 < 2 ^ 63 \<longrightarrow>
       next_interval (1 / 2) (1 / 2) 9000 = Inr (k * 9000) \<and> 0 < k * 9000"
    by blast
  have "k = 2" using k(2) numInterval_half by simp
  then have n: "numInterval (1 / 2) (1 / 2) = Finite 2"
    "next_interval (1 / 2) (1 / 2) 9000 = Inr 18000"
    using k by simp_all
  have t: "(0 :: int) < 9000" by simp
  show ?thesis using h1 h3 h4 t n by blast
qed

text \<open>
  C9, as the claim states it, fails: the probability 0 is below 1 (and the attribute
  accepts it), yet \<open>log (1 - 0) = 0\<close>, the quotient is minus infinity and the assertion
  \<open>numInterval > 0\<close> stops \<open>Send\<close> before an interval is computed.
\<close>

theorem C9_counterexample:
  "(0 :: real) < 1 \<and> next_interval (1 / 2) 0 9000 = Inl AssertNumInterval \<and>
   m_bernoulliPr (running_a\<lparr>m_bernoulliPr := 0\<rparr>) < 1 \<and>
   Send 0 True (running_a\<lparr>m_bernoulliPr := 0\<rparr>) = Inl AssertNumInterval"
proof -
  have n: "next_interval (1 / 2) 0 9000 = Inl AssertNumInterval"
    by (rule next_interval_tiny) simp_all
  let ?c = "running_a\<lparr>m_bernoulliPr := 0\<rparr>"
  have c: "IsExpired (m_sendEvent ?c)" "m_socket ?c = Some CreateSocket"
    by (simp_all add: client_defs)
  have "Send 0 True ?c = Inl AssertNumInterval"
    unfolding Send_unfold[OF c] using n by (simp add: client_defs)
  then show ?thesis using n by simp
qed

text \<open>
  C9, amended. The interval computation fails on the assertion \<open>m_bernoulliPr < 1\<close>
  whenever \<open>p \<ge> 1\<close> and never when \<open>p < 1\<close>. Below 1 the second assertion
  \<open>numInterval > 0\<close> decides: for a sample \<open>0 < u < 1\<close> it fails whenever \<open>|p| \<le> 2^-54\<close>
  (the double \<open>1 - p\<close> is then 1), and for \<open>2^-54 < p \<le> 1 - 2^-53\<close> and a sample
  \<open>2^-1074 \<le> u < 1\<close> neither assertion fails: the number of slots is a whole number
  \<open>k \<ge> 1\<close> and the interval is computed if \<open>k\<close> and \<open>k * T\<close> are below \<open>2^63\<close>.
  \<open>Send\<close>, entered with its event expired and a socket, fails with the error of the
  interval computation and returns when that returns.
\<close>

theorem C9_interval_assertions:
  "(1 \<le> p \<longrightarrow> next_interval u p T = Inl AssertBernoulliPr) \<and>
   (p < 1 \<longrightarrow> next_interval u p T \<noteq> Inl AssertBernoulliPr) \<and>
   (\<bar>p\<bar> \<le> 2 powi (- 54) \<and> 0 < u \<and> u < 1 \<longrightarrow> next_interval u p T = Inl AssertNumInterval) \<and>
   (2 powi (- 54) < p \<and> p \<le> 1 - 2 powi (- 53) \<and> 2 powi (- 1074) \<le> u \<and> u < 1 \<longrightarrow>
      (\<exists>k. 1 \<le> k \<and> numInterval u p = Finite (of_int k) \<and>
           next_interval u p T =
             (if k < 2 ^ 63 \<and> \<bar>k * T\<bar> < 2 ^ 63 then Inr (k * T) else Inl TimeOverflow))) \<and>
   (IsExpired (m_sendEvent c) \<and> m_socket c = Some sock \<longrightarrow>
      (1 \<le> m_bernoulliPr c \<longrightarrow> Send now ok c = Inl AssertBernoulliPr) \<and>
      (\<forall>e. next_interval
              (samples (m_uniformRngForInterval c) (drawn (m_uniformRngForInterval c)))
              (m_bernoulliPr c) (m_timeSlot c) = Inl e \<longrightarrow>
           Send now ok c = Inl e) \<and>
      (\<forall>interval. next_interval
              (samples (m_uniformRngForInterval c) (drawn (m_uniformRngForInterval c)))
              (m_bernoulliPr c) (m_timeSlot c) = Inr interval \<longrightarrow>
           (\<exists>c'. Send now ok c = Inr c')))"
proof -
  have S1: "Send now ok c = Inl AssertBernoulliPr"
    if "IsExpired (m_sendEvent c)" "m_socket c = Some sock" "1 \<le> m_bernoulliPr c"
    unfolding Send_unfold[OF that(1,2)] using next_interval_pr_ge_1[OF that(3)] by simp
  have S2: "Send now ok c = Inl e"
    if "IsExpired (m_sendEvent c)" "m_socket c = Some sock"
      "next_interval (samples (m_uniformRngForInterval c) (drawn (m_uniformRngForInterval c)))
         (m_bernoulliPr c) (m_timeSlot c) = Inl e" for e
    unfolding Send_unfold[OF that(1,2)] using that(3) by simp
  have S3: "\<exists>c'. Send now ok c = Inr c'"
    if "IsExpired (m_sendEvent c)" "m_socket c = Some sock"
      "next_interval (samples (m_uniformRngForInterval c) (drawn (m_uniformRngForInterval c)))
         (m_bernoulliPr c) (m_timeSlot c) = Inr interval" for interval
    using Send_returns[OF that] .
  have N4: "\<exists>k. 1 \<le> k \<and> numInterval u p = Finite (of_int k) \<and>
           next_interval u p T =
             (if k < 2 ^ 63 \<and> \<bar>k * T\<bar> < 2 ^ 63 then Inr (k * T) else Inl TimeOverflow)"
    if "2 powi (- 54) < p" "p \<le> 1 - 2 powi (- 53)" "2 powi (- 1074) \<le> u" "u < 1"
    using next_interval_in_range[OF that] .
  show ?thesis
    using S1 S2 S3 N4 next_interval_pr_ge_1[of p u T] next_interval_pr_less_1[of p u T]
      next_interval_tiny[of p u T]
    by blast
qed

theorem C9_interval_assertions_witness:
  "next_interval (1 / 2) 1 9000 = Inl AssertBernoulliPr \<and>
   next_interval (1 / 2) 0 9000 = Inl AssertNumInterval \<and>
   next_interval (1 / 2) (1 / 2) 9000 = Inr 18000 \<and>
   Send 0 True (running_a\<lparr>m_bernoulliPr := 1\<rparr>) = Inl AssertBernoulliPr \<and>
   (\<exists>c'. Send 0 True running_a = Inr c')"
proof -
  have a: "IsExpired (m_sendEvent (running_a\<lparr>m_bernoulliPr := 1\<rparr>))"
    "m_socket (running_a\<lparr>m_bernoulliPr := 1\<rparr>) = Some CreateSocket"
    "m_bernoulliPr (running_a\<lparr>m_bernoulliPr := 1\<rparr>) = 1"
    by (simp_all add: client_defs)
  have b: "IsExpired (m_sendEvent running_a)" "m_socket running_a = Some CreateSocket"
    "next_interval (samples (m_uniformRngForInterval running_a)
        (drawn (m_uniformRngForInterval running_a)))
        (m_bernoulliPr running_a) (m_timeSlot running_a) = Inr 18000"
    using next_interval_half by (simp_all add: client_defs)
  have one: "next_interval (1 / 2) 1 9000 = Inl AssertBernoulliPr \<and>
      Send 0 True (running_a\<lparr>m_bernoulliPr := 1\<rparr>) = Inl AssertBernoulliPr"
    using C9_interval_assertions [of 1 "1 / 2" 9000 "running_a\<lparr>m_bernoulliPr := 1\<rparr>"
        CreateSocket 0 True] a by simp
  have two: "next_interval (1 / 2) 0 9000 = Inl AssertNumInterval"
    using C9_interval_assertions [of 0 "1 / 2" 9000 running_a CreateSocket 0 True] by simp
  have three: "\<exists>c'. Send 0 True running_a = Inr c'"
    using C9_interval_assertions [of "1 / 2" "1 / 2" 9000 running_a CreateSocket 0 True] b
    by blast
  show ?thesis using one two three next_interval_half by simp
qed

text \<open>
  C4. When \<open>m_optionalTid\<close> equals \<open>m_priority\<close>, the choice leaves the socket and the
  priority stream as they are, whatever \<open>m_optionalTidPr\<close> is; a client started without a
  socket then sends every packet with \<open>m_priority\<close> and never draws from the priority
  stream. Otherwise one sample \<open>v\<close> is drawn and the packet goes out with the optional
  priority if \<open>v < m_optionalTidPr\<close> and with \<open>m_priority\<close> if not.
\<close>

theorem C4_priority_selection:
  "(m_optionalTid c = ucast (m_priority c) \<longrightarrow>
      choose_tid c sock = (sock, m_uniformRngForTid c)) \<and>
   (m_optionalTid c = ucast (m_priority c) \<and> m_socket c = None \<and>
    StartApplication t c = Inr c1 \<and> run oks c1 = Inr c2 \<longrightarrow>
      (\<exists>sock2. m_socket c2 = Some sock2 \<and>
         (\<forall>pkt \<in> set (sk_packets sock2). fst (snd pkt) = m_priority c)) \<and>
      m_uniformRngForTid c2 = m_uniformRngForTid c) \<and>
   (m_optionalTid c \<noteq> ucast (m_priority c) \<longrightarrow>
      choose_tid c sock =
        (Socket_SetPriority sock
           (if samples (m_uniformRngForTid c) (drawn (m_uniformRngForTid c)) < m_optionalTidPr c
            then ucast (m_optionalTid c) else m_priority c),
         (m_uniformRngForTid c)\<lparr>drawn := drawn (m_uniformRngForTid c) + 1\<rparr>)) \<and>
   (m_optionalTid c \<noteq> ucast (m_priority c) \<and> m_socket c = Some sock \<and>
    Send now ok c = Inr c' \<longrightarrow>
      (\<exists>sock'. m_socket c' = Some sock' \<and>
         sk_packets sock' = sk_packets sock @
           [(m_size c,
             if samples (m_uniformRngForTid c) (drawn (m_uniformRngForTid c)) < m_optionalTidPr c
             then ucast (m_optionalTid c) else m_priority c,
             ok)]) \<and>
      drawn (m_uniformRngForTid c') = drawn (m_uniformRngForTid c) + 1)"
proof -
  have B: "(\<exists>sock2. m_socket c2 = Some sock2 \<and>
         (\<forall>pkt \<in> set (sk_packets sock2). fst (snd pkt) = m_priority c)) \<and>
      m_uniformRngForTid c2 = m_uniformRngForTid c"
    if eq: "m_optionalTid c = ucast (m_priority c)" and none: "m_socket c = None"
      and st: "StartApplication t c = Inr c1" and r: "run oks c1 = Inr c2"
  proof -
    let ?s = "if m_priority c \<noteq> 0 then Socket_SetPriority CreateSocket (m_priority c)
              else CreateSocket"
    have peer: "m_peerAddressSet c" using st by (auto simp add: StartApplication_def split: if_splits)
    have c1: "c1 = c\<lparr>m_socket := Some ?s, m_sendEvent := Pending t\<rparr>"
      using st StartApplication_fresh[OF peer none, of t] by simp
    have pr: "sk_priority ?s = m_priority c" "sk_packets ?s = []"
      by (simp_all add: Socket_SetPriority_def CreateSocket_def)
    have e1: "m_optionalTid c1 = ucast (m_priority c1)" using eq c1 by simp
    have s1: "m_socket c1 = Some ?s" using c1 by simp
    from run_equal_tid[OF e1 s1 r] pr c1 show ?thesis by auto
  qed
  have D: "(\<exists>sock'. m_socket c' = Some sock' \<and>
         sk_packets sock' = sk_packets sock @
           [(m_size c,
             if samples (m_uniformRngForTid c) (drawn (m_uniformRngForTid c)) < m_optionalTidPr c
             then ucast (m_optionalTid c) else m_priority c,
             ok)]) \<and>
      drawn (m_uniformRngForTid c') = drawn (m_uniformRngForTid c) + 1"
    if ne: "m_optionalTid c \<noteq> ucast (m_priority c)" and sock: "m_socket c = Some sock"
      and s: "Send now ok c = Inr c'"
  proof -
    have ex: "IsExpired (m_sendEvent c)" using s by (rule Send_needs_expired)
    show ?thesis
      using s unfolding Send_unfold[OF ex sock]
      by (auto simp add: choose_tid_differ[OF ne] Socket_Send_def Socket_SetPriority_def
          split: sum.splits)
  qed
  show ?thesis
    using B D choose_tid_equal[of c sock] choose_tid_differ[of c sock] by blast
qed

theorem C4_priority_selection_witness:
  "(\<exists>c1 c2 sock2. m_optionalTid client_same_tid = ucast (m_priority client_same_tid) \<and>
      m_optionalTidPr client_same_tid = 1 \<and>
      StartApplication 0 client_same_tid = Inr c1 \<and> run [True, False] c1 = Inr c2 \<and>
      m_socket c2 = Some sock2 \<and> length (sk_packets sock2) = 2 \<and>
      list_all (\<lambda>pkt. fst (snd pkt) = 0) (sk_packets sock2) \<and>
      drawn (m_uniformRngForTid c2) = 0) \<and>
   (\<exists>c' sock'. m_optionalTid running_two_tids \<noteq> ucast (m_priority running_two_tids) \<and>
      Send 0 True running_two_tids = Inr c' \<and> m_socket c' = Some sock' \<and>
      sk_packets sock' = [(1024, 5, True)] \<and> drawn (m_uniformRngForTid c') = 1)"
proof -
  let ?s = "client_same_tid"
  have st: "StartApplication 0 ?s = Inr (?s\<lparr>m_socket := Some CreateSocket, m_sendEvent := Pending 0\<rparr>)"
    by (simp add: StartApplication_def client_defs)
  let ?c1 = "?s\<lparr>m_socket := Some CreateSocket, m_sendEvent := Pending 0\<rparr>"
  have "\<exists>c' sock'. run [True, False] ?c1 = Inr c' \<and> m_socket c' = Some sock' \<and> \<not> sk_closed sock' \<and>
           length (sk_packets sock') = min (unat (m_maxPackets ?c1)) (0 + length [True, False]) \<and>
           m_sent c' = of_nat (min (unat (m_maxPackets ?c1)) (0 + length [True, False])) \<and>
           (if 0 + length [True, False] < unat (m_maxPackets ?c1)
            then (\<exists>t'. m_sendEvent c' = Pending t') else m_sendEvent c' = HasRun)"
    by (intro run_count[where sock = CreateSocket and t = 0])
      (simp_all add: client_defs CreateSocket_def next_interval_half)
  then obtain c2 sock2 where r: "run [True, False] ?c1 = Inr c2" "m_socket c2 = Some sock2"
    "length (sk_packets sock2) = 2"
    by (auto simp add: client_defs)
  have eq: "m_optionalTid ?s = ucast (m_priority ?s)" "m_socket ?s = None"
    "m_priority ?s = 0" "m_optionalTidPr ?s = 1" "drawn (m_uniformRngForTid ?s) = 0"
    by (simp_all add: client_defs)
  have one: "\<exists>c1 c2 sock2. m_optionalTid ?s = ucast (m_priority ?s) \<and>
      m_optionalTidPr ?s = 1 \<and>
      StartApplication 0 ?s = Inr c1 \<and> run [True, False] c1 = Inr c2 \<and>
      m_socket c2 = Some sock2 \<and> length (sk_packets sock2) = 2 \<and>
      list_all (\<lambda>pkt. fst (snd pkt) = 0) (sk_packets sock2) \<and>
      drawn (m_uniformRngForTid c2) = 0"
    using C4_priority_selection [where c = ?s and t = 0 and ?c1.0 = ?c1 and oks = "[True, False]" and ?c2.0 = c2]
      st r eq by (auto simp add: list_all_iff)
  let ?r = "running_two_tids"
  have ne: "m_optionalTid ?r \<noteq> ucast (m_priority ?r)"
    "m_socket ?r = Some (Socket_SetPriority CreateSocket 3)"
    "IsExpired (m_sendEvent ?r)"
    by (simp_all add: client_defs)
  have ni: "next_interval (samples (m_uniformRngForInterval ?r) (drawn (m_uniformRngForInterval ?r)))
            (m_bernoulliPr ?r) (m_timeSlot ?r) = Inr 18000"
    using next_interval_half by (simp add: client_defs)
  from Send_returns[OF ne(3) ne(2) ni] obtain c' where s: "Send 0 True ?r = Inr c'" by blast
  have two: "\<exists>c' sock'. m_optionalTid ?r \<noteq> ucast (m_priority ?r) \<and>
      Send 0 True ?r = Inr c' \<and> m_socket c' = Some sock' \<and>
      sk_packets sock' = [(1024, 5, True)] \<and> drawn (m_uniformRngForTid c') = 1"
    using C4_priority_selection [where c = ?r and sock = "Socket_SetPriority CreateSocket 3" and now = 0
        and ok = True and c' = c'] ne s
    by (auto simp add: client_defs CreateSocket_def Socket_SetPriority_def)
  show ?thesis using one two by blast
qed

text \<open>
  C5. When \<open>Send\<close> returns, the next \<open>Send\<close> is armed, at \<open>now + interval\<close>, exactly
  when \<open>m_maxPackets = 0\<close> or the incremented \<open>m_sent\<close> is below \<open>m_maxPackets\<close>; otherwise
  the event stays expired. A client with \<open>m_maxPackets = 3\<close> whose interval computation
  returns an interval for every sample of its stream starts, hands one packet to the
  socket at each of the first three scheduler steps and none after; after three steps no
  event is pending, and the socket stays open until \<open>StopApplication\<close> closes it.
\<close>

theorem C5_max_packets:
  "(Send now ok c = Inr c' \<longrightarrow>
      (\<exists>interval.
         next_interval (samples (m_uniformRngForInterval c) (drawn (m_uniformRngForInterval c)))
           (m_bernoulliPr c) (m_timeSlot c) = Inr interval \<and>
         (if m_maxPackets c = 0 \<or> m_sent c' < m_maxPackets c
          then m_sendEvent c' = Pending (now + interval)
          else m_sendEvent c' = m_sendEvent c \<and> IsExpired (m_sendEvent c')))) \<and>
   (m_peerAddressSet c \<and> m_socket c = None \<and> m_sent c = 0 \<and> m_maxPackets c = 3 \<and>
    (\<forall>i. \<exists>interval. next_interval (samples (m_uniformRngForInterval c) i)
                         (m_bernoulliPr c) (m_timeSlot c) = Inr interval) \<longrightarrow>
      (\<exists>c1. StartApplication t c = Inr c1 \<and>
         (\<forall>oks. \<exists>c2 sock2.
            run oks c1 = Inr c2 \<and> m_socket c2 = Some sock2 \<and>
            length (sk_packets sock2) = min 3 (length oks) \<and>
            m_sent c2 = of_nat (min 3 (length oks)) \<and>
            (if length oks < 3 then (\<exists>t'. m_sendEvent c2 = Pending t')
             else m_sendEvent c2 = HasRun) \<and>
            \<not> sk_closed sock2 \<and>
            (\<exists>c3 sock3. StopApplication c2 = Inr c3 \<and> m_socket c3 = Some sock3 \<and>
                        sk_closed sock3))))"
proof -
  have A: "\<exists>interval.
         next_interval (samples (m_uniformRngForInterval c) (drawn (m_uniformRngForInterval c)))
           (m_bernoulliPr c) (m_timeSlot c) = Inr interval \<and>
         (if m_maxPackets c = 0 \<or> m_sent c' < m_maxPackets c
          then m_sendEvent c' = Pending (now + interval)
          else m_sendEvent c' = m_sendEvent c \<and> IsExpired (m_sendEvent c'))"
    if s: "Send now ok c = Inr c'"
  proof -
    have ex: "IsExpired (m_sendEvent c)" using s by (rule Send_needs_expired)
    obtain sock where sock: "m_socket c = Some sock" using Send_needs_socket[OF s] by blast
    show ?thesis
      using s ex unfolding Send_unfold[OF ex sock]
      by (auto split: sum.splits)
  qed
  have B: "\<exists>c1. StartApplication t c = Inr c1 \<and>
         (\<forall>oks. \<exists>c2 sock2.
            run oks c1 = Inr c2 \<and> m_socket c2 = Some sock2 \<and>
            length (sk_packets sock2) = min 3 (length oks) \<and>
            m_sent c2 = of_nat (min 3 (length oks)) \<and>
            (if length oks < 3 then (\<exists>t'. m_sendEvent c2 = Pending t')
             else m_sendEvent c2 = HasRun) \<and>
            \<not> sk_closed sock2 \<and>
            (\<exists>c3 sock3. StopApplication c2 = Inr c3 \<and> m_socket c3 = Some sock3 \<and>
                        sk_closed sock3))"
    if peer: "m_peerAddressSet c" and none: "m_socket c = None" and sent: "m_sent c = 0"
      and mx: "m_maxPackets c = 3"
      and iv: "\<forall>i. \<exists>interval. next_interval (samples (m_uniformRngForInterval c) i)
                         (m_bernoulliPr c) (m_timeSlot c) = Inr interval"
  proof -
    let ?s = "if m_priority c \<noteq> 0 then Socket_SetPriority CreateSocket (m_priority c)
              else CreateSocket"
    let ?c1 = "c\<lparr>m_socket := Some ?s, m_sendEvent := Pending t\<rparr>"
    have st: "StartApplication t c = Inr ?c1" using StartApplication_fresh[OF peer none] .
    have s0: "\<not> sk_closed ?s" "length (sk_packets ?s) = 0"
      by (simp_all add: Socket_SetPriority_def CreateSocket_def)
    have "\<exists>c2 sock2.
            run oks ?c1 = Inr c2 \<and> m_socket c2 = Some sock2 \<and>
            length (sk_packets sock2) = min 3 (length oks) \<and>
            m_sent c2 = of_nat (min 3 (length oks)) \<and>
            (if length oks < 3 then (\<exists>t'. m_sendEvent c2 = Pending t')
             else m_sendEvent c2 = HasRun) \<and>
            \<not> sk_closed sock2 \<and>
            (\<exists>c3 sock3. StopApplication c2 = Inr c3 \<and> m_socket c3 = Some sock3 \<and>
                        sk_closed sock3)" for oks
    proof -
      have "\<exists>c' sock'. run oks ?c1 = Inr c' \<and> m_socket c' = Some sock' \<and> \<not> sk_closed sock' \<and>
           length (sk_packets sock') = min (unat (m_maxPackets ?c1)) (0 + length oks) \<and>
           m_sent c' = of_nat (min (unat (m_maxPackets ?c1)) (0 + length oks)) \<and>
           (if 0 + length oks < unat (m_maxPackets ?c1)
            then (\<exists>t'. m_sendEvent c' = Pending t') else m_sendEvent c' = HasRun)"
        using s0 iv sent mx by (intro run_count[where sock = ?s and t = t]) simp_all
      then obtain c2 sock2 where
        r: "run oks ?c1 = Inr c2" "m_socket c2 = Some sock2" "\<not> sk_closed sock2"
          "length (sk_packets sock2) = min 3 (length oks)"
          "m_sent c2 = of_nat (min 3 (length oks))"
          "if length oks < 3 then (\<exists>t'. m_sendEvent c2 = Pending t') else m_sendEvent c2 = HasRun"
        using mx by auto
      have "\<exists>c3 sock3. StopApplication c2 = Inr c3 \<and> m_socket c3 = Some sock3 \<and> sk_closed sock3"
        using StopApplication_started[OF r(2)] by (simp add: Socket_Close_def)
      then show ?thesis using r by blast
    qed
    then show ?thesis using st by blast
  qed
  show ?thesis using A B by blast
qed

theorem C5_max_packets_witness:
  "(\<exists>c'. Send 0 True (running_a\<lparr>m_maxPackets := 3\<rparr>) = Inr c' \<and>
         m_sent c' = 1 \<and> m_sendEvent c' = Pending 18000) \<and>
   (\<exists>c'. Send 0 True (running_a\<lparr>m_maxPackets := 3, m_sent := 2\<rparr>) = Inr c' \<and>
         m_sent c' = 3 \<and> m_sendEvent c' = HasRun) \<and>
   (\<exists>c1 c2 sock2. StartApplication 0 client_three = Inr c1 \<and>
      run [True, False, True, True, True] c1 = Inr c2 \<and> m_socket c2 = Some sock2 \<and>
      length (sk_packets sock2) = 3 \<and> m_sent c2 = 3 \<and> m_sendEvent c2 = HasRun \<and>
      \<not> sk_closed sock2)"
proof -
  let ?a = "running_a\<lparr>m_maxPackets := 3\<rparr>"
  have a: "IsExpired (m_sendEvent ?a)" "m_socket ?a = Some CreateSocket"
    "next_interval (samples (m_uniformRngForInterval ?a) (drawn (m_uniformRngForInterval ?a)))
            (m_bernoulliPr ?a) (m_timeSlot ?a) = Inr 18000"
    using next_interval_half by (simp_all add: client_defs)
  from Send_returns[OF a] obtain ca where sa: "Send 0 True ?a = Inr ca" by blast
  have sent_a: "m_sent ca = 1"
    using sa unfolding Send_unfold[OF a(1,2)] a(3) by (auto simp add: client_defs)
  have one: "\<exists>c'. Send 0 True ?a = Inr c' \<and> m_sent c' = 1 \<and> m_sendEvent c' = Pending 18000"
    using C5_max_packets [where c = ?a and now = 0 and ok = True and c' = ca] sa sent_a a(3)
    by (auto simp add: client_defs)
  let ?b = "running_a\<lparr>m_maxPackets := 3, m_sent := 2\<rparr>"
  have b: "IsExpired (m_sendEvent ?b)" "m_socket ?b = Some CreateSocket"
    "next_interval (samples (m_uniformRngForInterval ?b) (drawn (m_uniformRngForInterval ?b)))
            (m_bernoulliPr ?b) (m_timeSlot ?b) = Inr 18000"
    using next_interval_half by (simp_all add: client_defs)
  from Send_returns[OF b] obtain cb where sb: "Send 0 True ?b = Inr cb" by blast
  have sent_b: "m_sent cb = 3"
    using sb unfolding Send_unfold[OF b(1,2)] b(3) by (auto simp add: client_defs)
  have two: "\<exists>c'. Send 0 True ?b = Inr c' \<and> m_sent c' = 3 \<and> m_sendEvent c' = HasRun"
    using C5_max_packets [where c = ?b and now = 0 and ok = True and c' = cb] sb sent_b b(3)
    by (auto simp add: client_defs)
  have h: "m_peerAddressSet client_three \<and> m_socket client_three = None \<and>
      m_sent client_three = 0 \<and> m_maxPackets client_three = 3 \<and>
      (\<forall>i. \<exists>interval. next_interval (samples (m_uniformRngForInterval client_three) i)
                         (m_bernoulliPr client_three) (m_timeSlot client_three) = Inr interval)"
    by (simp add: client_defs next_interval_half)
  from C5_max_packets [where c = client_three and t = 0] h obtain c1 where
    c1: "StartApplication 0 client_three = Inr c1"
    and all: "\<forall>oks. \<exists>c2 sock2.
            run oks c1 = Inr c2 \<and> m_socket c2 = Some sock2 \<and>
            length (sk_packets sock2) = min 3 (length oks) \<and>
            m_sent c2 = of_nat (min 3 (length oks)) \<and>
            (if length oks < 3 then (\<exists>t'. m_sendEvent c2 = Pending t')
             else m_sendEvent c2 = HasRun) \<and>
            \<not> sk_closed sock2 \<and>
            (\<exists>c3 sock3. StopApplication c2 = Inr c3 \<and> m_socket c3 = Some sock3 \<and>
                        sk_closed sock3)"
    by blast
  from all[rule_format, of "[True, False, True, True, True]"] c1
  have three: "\<exists>c1 c2 sock2. StartApplication 0 client_three = Inr c1 \<and>
      run [True, False, True, True, True] c1 = Inr c2 \<and> m_socket c2 = Some sock2 \<and>
      length (sk_packets sock2) = 3 \<and> m_sent c2 = 3 \<and> m_sendEvent c2 = HasRun \<and>
      \<not> sk_closed sock2"
    by auto
  show ?thesis using one two three by blast
qed

text \<open>
  C6. \<open>Send\<close> fails with the same assertion, or returns, whether the transport accepts
  the packet or not; when it returns, \<open>m_sent\<close> has grown by one (modulo \<open>2^32\<close>) in both
  cases, and the two results have the same event and the same random streams: they
  differ only in the outcome recorded for the packet and in the trace.
\<close>

theorem C6_transport_outcome:
  assumes "IsExpired (m_sendEvent c)" "m_socket c = Some sock"
  shows "(\<forall>e. Send now True c = Inl e \<longleftrightarrow> Send now False c = Inl e) \<and>
         (\<forall>a. Send now True c = Inr a \<longrightarrow>
            (\<exists>b. Send now False c = Inr b \<and>
                 m_sent a = m_sent c + 1 \<and> m_sent b = m_sent c + 1 \<and>
                 m_sendEvent a = m_sendEvent b \<and>
                 m_uniformRngForInterval a = m_uniformRngForInterval b \<and>
                 m_uniformRngForTid a = m_uniformRngForTid b \<and>
                 b = a\<lparr>m_socket := Some (Socket_Send (fst (choose_tid c sock)) (m_size c) False),
                       m_txTrace := m_txTrace c\<rparr>)) \<and>
         (\<forall>b. Send now False c = Inr b \<longrightarrow> (\<exists>a. Send now True c = Inr a))"
  by (auto simp add: Send_unfold[OF assms] split: sum.splits)

theorem C6_transport_outcome_witness:
  "IsExpired (m_sendEvent running_a) \<and> m_socket running_a = Some CreateSocket \<and>
   (\<exists>a b. Send 0 True running_a = Inr a \<and> Send 0 False running_a = Inr b \<and>
      m_sent a = 1 \<and> m_sent b = 1 \<and>
      m_sendEvent a = Pending 18000 \<and> m_sendEvent b = Pending 18000 \<and>
      m_txTrace a = [1024] \<and> m_txTrace b = [])"
proof -
  have a: "IsExpired (m_sendEvent running_a)" "m_socket running_a = Some CreateSocket"
    "next_interval (samples (m_uniformRngForInterval running_a)
            (drawn (m_uniformRngForInterval running_a)))
            (m_bernoulliPr running_a) (m_timeSlot running_a) = Inr 18000"
    using next_interval_half by (simp_all add: client_defs)
  from Send_returns[OF a] obtain ca where sa: "Send 0 True running_a = Inr ca" by blast
  have fa: "m_sendEvent ca = Pending 18000" "m_txTrace ca = [1024]" "m_sent running_a = 0"
    using sa unfolding Send_unfold[OF a(1,2)] a(3) by (auto simp add: client_defs)
  from C6_transport_outcome [OF a(1,2), of 0] sa obtain cb where
    "Send 0 False running_a = Inr cb" "m_sent ca = m_sent running_a + 1"
    "m_sent cb = m_sent running_a + 1" "m_sendEvent ca = m_sendEvent cb"
    "cb = ca\<lparr>m_socket := Some (Socket_Send (fst (choose_tid running_a CreateSocket))
                               (m_size running_a) False),
             m_txTrace := m_txTrace running_a\<rparr>"
    by blast
  then show ?thesis using a sa fa by (auto simp add: client_defs)
qed

text \<open>
  C7. On a client that has a socket, \<open>StopApplication\<close> returns; afterwards the event is
  expired (a pending event has become cancelled) and the socket is closed; no packet is
  handed to the socket and \<open>m_sent\<close> does not change. In the resulting state the
  scheduler never runs \<open>Send\<close>, and a second \<open>StopApplication\<close> changes nothing.
\<close>

theorem C7_stop:
  assumes "m_socket c = Some sock"
  shows "\<exists>c' sock'. StopApplication c = Inr c' \<and>
           m_sendEvent c' = Cancel (m_sendEvent c) \<and> IsExpired (m_sendEvent c') \<and>
           m_socket c' = Some sock' \<and> sk_closed sock' \<and>
           sk_packets sock' = sk_packets sock \<and> m_sent c' = m_sent c \<and>
           (\<forall>oks. run oks c' = Inr c') \<and>
           StopApplication c' = Inr c'"
proof -
  let ?c' = "c\<lparr>m_sendEvent := Cancel (m_sendEvent c), m_socket := Some (Socket_Close sock)\<rparr>"
  have st: "StopApplication c = Inr ?c'" using StopApplication_started[OF assms] .
  have ex: "IsExpired (m_sendEvent ?c')" by (simp add: IsExpired_Cancel)
  have r: "\<forall>oks. run oks ?c' = Inr ?c'" using run_expired[OF ex] by blast
  have again: "StopApplication ?c' = Inr ?c'"
    by (simp add: StopApplication_def Cancel_Cancel Socket_Close_def)
  show ?thesis
    apply (rule exI[of _ ?c'])
    apply (rule exI[of _ "Socket_Close sock"])
    using st ex r again by (simp add: Socket_Close_def)
qed

theorem C7_stop_witness:
  "StartApplication 0 client_a = Inr started_a \<and>
   m_socket started_a = Some CreateSocket \<and>
   (\<exists>c'. StopApplication started_a = Inr c' \<and> m_sendEvent c' = Cancelled \<and>
         m_socket c' = Some (CreateSocket\<lparr>sk_closed := True\<rparr>) \<and>
         run [True, True] c' = Inr c' \<and> StopApplication c' = Inr c')"
proof -
  have st: "StartApplication 0 client_a = Inr started_a"
    by (simp add: StartApplication_def started_a_def client_defs)
  have s: "m_socket started_a = Some CreateSocket" "m_sendEvent started_a = Pending 0"
    by (simp_all add: started_a_def)
  from C7_stop [OF s(1)] obtain c' sock' where
    c': "StopApplication started_a = Inr c'" "m_sendEvent c' = Cancel (m_sendEvent started_a)"
      "m_socket c' = Some sock'" "sk_closed sock'" "\<forall>oks. run oks c' = Inr c'"
      "StopApplication c' = Inr c'"
    by blast
  have sk: "m_socket c' = Some (CreateSocket\<lparr>sk_closed := True\<rparr>)"
    using c'(1) s(1) by (auto simp add: StopApplication_def Socket_Close_def)
  have r: "run [True, True] c' = Inr c'" using c'(5) by blast
  have ev: "m_sendEvent c' = Cancelled" using c'(2) s(2) by simp
  show ?thesis using st s(1) c'(1,6) sk r ev by blast
qed

text \<open>
  C10. When \<open>m_optionalTid\<close> equals \<open>m_priority\<close>, \<open>Send\<close> leaves the priority of the
  socket and the list of \<open>SetPriority\<close> calls on it as they are. When \<open>m_priority\<close> is 0,
  \<open>StartApplication\<close> creates the socket without a \<open>SetPriority\<close> call. So a client with
  priority 0 and optional TID 0 that starts, runs and stops has made no \<open>SetPriority\<close>
  call on its socket.
\<close>

theorem C10_socket_priority_untouched:
  "(m_optionalTid c = ucast (m_priority c) \<and> m_socket c = Some sock \<and>
    Send now ok c = Inr c' \<longrightarrow>
      (\<exists>sock'. m_socket c' = Some sock' \<and> sk_priority sock' = sk_priority sock \<and>
               sk_setPriorityCalls sock' = sk_setPriorityCalls sock)) \<and>
   (m_priority c = 0 \<and> m_socket c = None \<and> StartApplication t c = Inr c1 \<longrightarrow>
      (\<exists>sock1. m_socket c1 = Some sock1 \<and> sk_setPriorityCalls sock1 = [])) \<and>
   (m_priority c = 0 \<and> m_optionalTid c = 0 \<and> m_socket c = None \<and>
    StartApplication t c = Inr c1 \<and> run oks c1 = Inr c2 \<and> StopApplication c2 = Inr c3 \<longrightarrow>
      (\<exists>sock2 sock3. m_socket c2 = Some sock2 \<and> sk_setPriorityCalls sock2 = [] \<and>
                     m_socket c3 = Some sock3 \<and> sk_setPriorityCalls sock3 = []))"
proof -
  have A: "\<exists>sock'. m_socket c' = Some sock' \<and> sk_priority sock' = sk_priority sock \<and>
               sk_setPriorityCalls sock' = sk_setPriorityCalls sock"
    if "m_optionalTid c = ucast (m_priority c)" "m_socket c = Some sock" "Send now ok c = Inr c'"
    using Send_equal_tid[OF that] by (simp add: Socket_Send_def)
  have start: "c1 = c\<lparr>m_socket := Some CreateSocket, m_sendEvent := Pending t\<rparr>"
    if "m_priority c = 0" "m_socket c = None" "StartApplication t c = Inr c1"
    using that by (auto simp add: StartApplication_def split: if_splits)
  have B: "\<exists>sock1. m_socket c1 = Some sock1 \<and> sk_setPriorityCalls sock1 = []"
    if "m_priority c = 0" "m_socket c = None" "StartApplication t c = Inr c1"
    using start[OF that] by (simp add: CreateSocket_def)
  have C: "\<exists>sock2 sock3. m_socket c2 = Some sock2 \<and> sk_setPriorityCalls sock2 = [] \<and>
                     m_socket c3 = Some sock3 \<and> sk_setPriorityCalls sock3 = []"
    if p0: "m_priority c = 0" and o0: "m_optionalTid c = 0" and none: "m_socket c = None"
      and st: "StartApplication t c = Inr c1" and r: "run oks c1 = Inr c2"
      and sp: "StopApplication c2 = Inr c3"
  proof -
    have c1: "c1 = c\<lparr>m_socket := Some CreateSocket, m_sendEvent := Pending t\<rparr>"
      using start[OF p0 none st] .
    have e1: "m_optionalTid c1 = ucast (m_priority c1)" using c1 p0 o0 by simp
    have s1: "m_socket c1 = Some CreateSocket" using c1 by simp
    from run_equal_tid[OF e1 s1 r] obtain sock2 where
      s2: "m_socket c2 = Some sock2" "sk_setPriorityCalls sock2 = sk_setPriorityCalls CreateSocket"
      by blast
    have "c3 = c2\<lparr>m_sendEvent := Cancel (m_sendEvent c2), m_socket := Some (Socket_Close sock2)\<rparr>"
      using sp StopApplication_started[OF s2(1)] by simp
    then show ?thesis using s2 by (simp add: CreateSocket_def Socket_Close_def)
  qed
  show ?thesis using A B C by blast
qed

theorem C10_socket_priority_untouched_witness:
  "m_priority client_a = 0 \<and> m_optionalTid client_a = 0 \<and> m_socket client_a = None \<and>
   (\<exists>c1 c2 c3 sock3. StartApplication 0 client_a = Inr c1 \<and>
      run [True, False, True] c1 = Inr c2 \<and> StopApplication c2 = Inr c3 \<and>
      m_socket c3 = Some sock3 \<and> sk_setPriorityCalls sock3 = [] \<and>
      length (sk_packets sock3) = 3)"
proof -
  have st: "StartApplication 0 client_a = Inr started_a"
    by (simp add: StartApplication_def started_a_def client_defs)
  have h: "m_priority client_a = 0" "m_optionalTid client_a = 0" "m_socket client_a = None"
    by (simp_all add: client_defs)
  have "\<exists>c' sock'. run [True, False, True] started_a = Inr c' \<and> m_socket c' = Some sock' \<and>
           \<not> sk_closed sock' \<and>
           length (sk_packets sock') =
             min (unat (m_maxPackets started_a)) (0 + length [True, False, True]) \<and>
           m_sent c' = of_nat (min (unat (m_maxPackets started_a)) (0 + length [True, False, True])) \<and>
           (if 0 + length [True, False, True] < unat (m_maxPackets started_a)
            then (\<exists>t'. m_sendEvent c' = Pending t') else m_sendEvent c' = HasRun)"
    by (intro run_count[where sock = CreateSocket and t = 0])
      (simp_all add: started_a_def client_defs CreateSocket_def next_interval_half)
  then obtain c2 sock2 where r: "run [True, False, True] started_a = Inr c2"
    "m_socket c2 = Some sock2" "length (sk_packets sock2) = 3"
    by (auto simp add: started_a_def client_defs)
  have sp: "StopApplication c2 =
      Inr (c2\<lparr>m_sendEvent := Cancel (m_sendEvent c2), m_socket := Some (Socket_Close sock2)\<rparr>)"
    using StopApplication_started[OF r(2)] .
  from C10_socket_priority_untouched [where c = client_a and t = 0 and ?c1.0 = started_a and oks = "[True, False, True]"
      and ?c2.0 = c2
      and ?c3.0 = "c2\<lparr>m_sendEvent := Cancel (m_sendEvent c2), m_socket := Some (Socket_Close sock2)\<rparr>"]
    h st r sp
  show ?thesis by (auto simp add: Socket_Close_def)
qed

end
